theory Spec2Isabelle
  imports Complex_Main "HOL-Library.Word" "HOL-Library.Multiset" "HOL-Library.Signed_Division"
    "HOL-Library.Log_Nat"
begin

unbundle bit_operations_syntax

section \<open>Parameter sets (search.c)\<close>

text \<open>
  \<^verbatim>\<open>struct parameter_set\<close>: the fields \<^verbatim>\<open>h, d, a, k\<close> are \<^verbatim>\<open>unsigned char\<close>,
  \<^verbatim>\<open>w\<close> is \<^verbatim>\<open>unsigned short\<close>, the three costs are \<^verbatim>\<open>unsigned\<close> (32 bits).
  The selectors carry the prefix \<open>p_\<close> where the bare field name is also the name of a
  loop variable of \<^verbatim>\<open>do_search\<close>. The \<^verbatim>\<open>link\<close> field is the list structure itself:
  a linked list of parameter sets is a HOL list, the null pointer the empty list.
\<close>

record parameter_set =
  p_h :: "8 word"
  p_d :: "8 word"
  p_a :: "8 word"
  p_k :: "8 word"
  p_w :: "16 word"
  sig_size :: "32 word"
  sig_time :: "32 word"
  ver_time :: "32 word"

section \<open>Sorting into best-first order\<close>

definition my_compare :: "parameter_set \<Rightarrow> parameter_set \<Rightarrow> int" where
  "my_compare x y =
     (if sig_size x < sig_size y then 1
      else if sig_size x > sig_size y then - 1
      else if sig_time x < sig_time y then 1
      else if sig_time x > sig_time y then - 1
      else if ver_time x < ver_time y then 1
      else if ver_time x > ver_time y then - 1
      else 0)"

fun my_merge :: "parameter_set list \<Rightarrow> parameter_set list \<Rightarrow> parameter_set list" where
  "my_merge (x # xs) (y # ys) =
     (if my_compare x y \<ge> 0 then x # my_merge xs (y # ys) else y # my_merge (x # xs) ys)"
| "my_merge (x # xs) [] = x # xs"
| "my_merge [] ys = ys"

definition NUM_BIN :: nat where
  "NUM_BIN = 20"

text \<open>
  The ripple-add loop \<^verbatim>\<open>for (i=0; i<NUM_BIN; i++)\<close> of \<^verbatim>\<open>my_sort\<close>. It returns the
  value of \<open>i\<close> on exit together with the carried list and the bins: \<open>i < NUM_BIN\<close> after
  the \<^verbatim>\<open>break\<close>, \<open>i = NUM_BIN\<close> when the loop ran out of bins.
\<close>

function ripple :: "nat \<Rightarrow> parameter_set list \<Rightarrow> parameter_set list list
    \<Rightarrow> nat \<times> parameter_set list \<times> parameter_set list list" where
  "ripple i p bins =
     (if i < NUM_BIN then
        (if bins ! i = [] then (i, p, bins[i := p])
         else ripple (i + 1) (my_merge (bins ! i) p) (bins[i := []]))
      else (i, p, bins))"
  by pat_completeness auto
termination
  by (relation "measure (\<lambda>(i, p, bins). NUM_BIN - i)") auto

definition bin_insert :: "parameter_set \<Rightarrow> parameter_set list list \<Rightarrow> parameter_set list list" where
  "bin_insert x bins =
     (case ripple 0 [x] bins of
        (i, p, bins') \<Rightarrow> if i = NUM_BIN then bins'[NUM_BIN - 1 := p] else bins')"

fun sort_loop :: "parameter_set list \<Rightarrow> parameter_set list list \<Rightarrow> parameter_set list list" where
  "sort_loop [] bins = bins"
| "sort_loop (x # list) bins = sort_loop list (bin_insert x bins)"

function combine_bins :: "nat \<Rightarrow> parameter_set list \<Rightarrow> parameter_set list list
    \<Rightarrow> parameter_set list" where
  "combine_bins i p bins =
     (if i < NUM_BIN then combine_bins (i + 1) (my_merge (bins ! i) p) bins else p)"
  by pat_completeness auto
termination
  by (relation "measure (\<lambda>(i, p, bins). NUM_BIN - i)") auto

definition my_sort :: "parameter_set list \<Rightarrow> parameter_set list" where
  "my_sort list = combine_bins 0 [] (sort_loop list (replicate NUM_BIN []))"

text \<open>
  The order the comparator stands for: signature size ascending, then signing cost,
  then verification cost.
\<close>

definition best_first :: "parameter_set \<Rightarrow> parameter_set \<Rightarrow> bool" where
  "best_first x y \<longleftrightarrow>
     sig_size x < sig_size y \<or>
     (sig_size x = sig_size y \<and>
       (sig_time x < sig_time y \<or> (sig_time x = sig_time y \<and> ver_time x \<le> ver_time y)))"

section \<open>The estimator routines (gamma.c)\<close>

text \<open>
  \<^verbatim>\<open>compute_sec_level\<close> and \<^verbatim>\<open>check_sec_level\<close> sum a series in IEEE double arithmetic.
  They enter this development as parameters: \<open>csl m H T K\<close> stands for the value
  \<^verbatim>\<open>compute_sec_level(m, H, T, K)\<close> returns and \<open>chk m H T K s\<close> for the truth value of
  \<^verbatim>\<open>check_sec_level(m, H, T, K, s)\<close>. A \<^verbatim>\<open>double\<close> argument or result is a real number
  here; the rounding of \<^verbatim>\<open>lower + fract * 0.01 + 0.005\<close> is not part of the model.
\<close>

type_synonym level_fn = "real \<Rightarrow> int \<Rightarrow> int \<Rightarrow> int \<Rightarrow> real"
type_synonym check_fn = "real \<Rightarrow> int \<Rightarrow> int \<Rightarrow> int \<Rightarrow> real \<Rightarrow> bool"

definition INT_MAX :: int where
  "INT_MAX = 2 ^ 31 - 1"

text \<open>
  The first loop of \<^verbatim>\<open>compute_sigs_at_sec_level\<close>, \<^verbatim>\<open>for (lower = 0;; lower++)\<close>, entered
  with the current value of \<open>lower\<close>. \<^verbatim>\<open>lower\<close> is an \<^verbatim>\<open>int\<close>: once it has reached
  \<open>INT_MAX\<close> the next \<^verbatim>\<open>lower + 1\<close> overflows, the behaviour of the C program is undefined
  and the model has no result (\<open>None\<close>).
\<close>

function scan_lower :: "level_fn \<Rightarrow> real \<Rightarrow> int \<Rightarrow> int \<Rightarrow> int \<Rightarrow> int \<Rightarrow> int option" where
  "scan_lower csl sec_level H T K lower =
     (if lower \<ge> INT_MAX then None
      else if csl (real_of_int (lower + 1)) H T K < sec_level then Some lower
      else scan_lower csl sec_level H T K (lower + 1))"
  by pat_completeness auto
termination
  by (relation "measure (\<lambda>(csl, sec_level, H, T, K, lower). nat (INT_MAX - lower))") auto

text \<open>The second loop, \<^verbatim>\<open>for (fract = 0; fract < 100; fract++)\<close>; the result is \<open>fract\<close> on exit.\<close>

function scan_fract :: "level_fn \<Rightarrow> real \<Rightarrow> int \<Rightarrow> int \<Rightarrow> int \<Rightarrow> int \<Rightarrow> int \<Rightarrow> int" where
  "scan_fract csl sec_level H T K lower fract =
     (if fract < 100 then
        (if csl (real_of_int lower + real_of_int fract * 0.01 + 0.005) H T K < sec_level then fract
         else scan_fract csl sec_level H T K lower (fract + 1))
      else fract)"
  by pat_completeness auto
termination
  by (relation "measure (\<lambda>(csl, sec_level, H, T, K, lower, fract). nat (100 - fract))") auto

definition compute_sigs_at_sec_level :: "level_fn \<Rightarrow> real \<Rightarrow> int \<Rightarrow> int \<Rightarrow> int \<Rightarrow> int option" where
  "compute_sigs_at_sec_level csl sec_level H T K =
     (case scan_lower csl sec_level H T K 0 of
        None \<Rightarrow> None
      | Some lower \<Rightarrow>
          (let fract = scan_fract csl sec_level H T K lower 0
           in if 100 * lower + fract > INT_MAX then None else Some (100 * lower + fract)))"

section \<open>The enumeration of parameter sets (search.c)\<close>

subsection \<open>Single-precision values\<close>

text \<open>
  \<^verbatim>\<open>cost_hypertree\<close> is a \<^verbatim>\<open>float\<close>. Every value it takes in \<^verbatim>\<open>do_search\<close> is an
  integer, so a \<^verbatim>\<open>float\<close> is modelled by the integer it holds, and each operation
  rounds its exact result to the nearest integer with a 24-bit significand, ties to
  even (IEEE binary32, each operation evaluated in single precision).
  \<open>float_exp n\<close> is the number of low bits that do not fit into the significand.
\<close>

function float_exp :: "nat \<Rightarrow> nat" where
  "float_exp n = (if n < 2 ^ 24 then 0 else 1 + float_exp (n div 2))"
  by pat_completeness auto
termination
  by (relation "measure id") auto

definition fl_nat :: "nat \<Rightarrow> nat" where
  "fl_nat n =
     (let e = float_exp n; q = n div 2 ^ e; r = n mod 2 ^ e
      in if 2 * r < 2 ^ e \<or> (2 * r = 2 ^ e \<and> even q) then q * 2 ^ e else (q + 1) * 2 ^ e)"

definition fl :: "int \<Rightarrow> int" where
  "fl x = sgn x * int (fl_nat (nat \<bar>x\<bar>))"

subsection \<open>The loop nest of \<^verbatim>\<open>do_search\<close>, innermost first\<close>

datatype error = Out_Of_Memory

definition MAX_K :: "32 word" where
  "MAX_K = 100"

text \<open>
  The number of Winternitz checksum digits:
  \<^verbatim>\<open>for (checksum_d = 1, prod = w; prod < max_sum; checksum_d++, prod *= w)\<close>
  in \<^verbatim>\<open>unsigned\<close> arithmetic (\<open>prd\<close> is the variable \<^verbatim>\<open>prod\<close>). The product wraps
  around, and the loop need not end.
\<close>

partial_function (option) checksum_loop :: "32 word \<Rightarrow> 32 word \<Rightarrow> 32 word \<Rightarrow> 32 word \<Rightarrow> 32 word option" where
  "checksum_loop w max_sum checksum_d prd =
     (if prd < max_sum then checksum_loop w max_sum (checksum_d + 1) (prd * w)
      else Some checksum_d)"

declare checksum_loop.simps [code]

text \<open>
  The record that the body of the innermost loop fills in after \<^verbatim>\<open>malloc\<close>. The
  assignments to the \<^verbatim>\<open>unsigned char\<close> and \<^verbatim>\<open>unsigned short\<close> fields truncate.
\<close>

definition new_parameter_set :: "32 word \<Rightarrow> 32 word \<Rightarrow> 32 word \<Rightarrow> int \<Rightarrow> int \<Rightarrow> int \<Rightarrow> int
    \<Rightarrow> 32 word \<Rightarrow> 32 word \<Rightarrow> 32 word \<Rightarrow> parameter_set" where
  "new_parameter_set hash_size w wd h_merkle h d cost_hypertree a cost_fors_tree k =
     \<lparr> p_h = word_of_int h, p_d = word_of_int d, p_a = ucast a, p_k = ucast k, p_w = ucast w,
       sig_size = hash_size * (1 + k * (a + 1) + word_of_int d * (wd + word_of_int h_merkle)),
       sig_time = word_of_int (fl (fl (3 + cost_hypertree) + fl (uint (k * cost_fors_tree)))),
       ver_time = 1 + k * (a + 1) + 1 + word_of_int d * (wd * w div 2 + 1 + word_of_int h_merkle) \<rparr>"

text \<open>
  \<^verbatim>\<open>for (k=1; k<MAX_K; k++)\<close>. The state \<open>(n, list)\<close> is the number of parameter sets
  allocated so far and the list \<^verbatim>\<open>*current_list\<close>; \<open>heap\<close> is the number of
  parameter sets \<^verbatim>\<open>malloc\<close> can supply before it returns a null pointer.
\<close>

function k_loop :: "check_fn \<Rightarrow> nat \<Rightarrow> int \<Rightarrow> 32 word \<Rightarrow> 32 word \<Rightarrow> 32 word \<Rightarrow> 32 word \<Rightarrow> 32 word
    \<Rightarrow> int \<Rightarrow> int \<Rightarrow> int \<Rightarrow> int \<Rightarrow> 32 word \<Rightarrow> 32 word \<Rightarrow> 32 word
    \<Rightarrow> nat \<times> parameter_set list \<Rightarrow> error + nat \<times> parameter_set list" where
  "k_loop chk heap sec_level num_sig sign_op hash_size w wd h_merkle h d cost_hypertree
      a cost_fors_tree k st =
     (if k < MAX_K then
        (if fl (cost_hypertree + fl (uint (k * cost_fors_tree))) > fl (uint sign_op) then Inr st
         else if \<not> chk (real (unat num_sig)) h (sint a) (sint k) (real_of_int sec_level) then
           k_loop chk heap sec_level num_sig sign_op hash_size w wd h_merkle h d cost_hypertree
             a cost_fors_tree (k + 1) st
         else if fst st \<ge> heap then Inl Out_Of_Memory
         else
           k_loop chk heap sec_level num_sig sign_op hash_size w wd h_merkle h d cost_hypertree
             a cost_fors_tree (k + 1)
             (fst st + 1,
              new_parameter_set hash_size w wd h_merkle h d cost_hypertree a cost_fors_tree k
                # snd st))
      else Inr st)"
  by pat_completeness auto
termination
  by (relation "measure (\<lambda>(chk, heap, sec_level, num_sig, sign_op, hash_size, w, wd, h_merkle,
        h, d, cost_hypertree, a, cost_fors_tree, k, st). 100 - unat k)")
    (simp_all add: MAX_K_def word_less_nat_alt unat_word_ariths)

text \<open>
  \<^verbatim>\<open>for (a=1; a<30; a++)\<close>, with \<^verbatim>\<open>cost_fors_tree = 3 * (1 << a) - 1\<close> computed in
  \<^verbatim>\<open>int\<close> and stored into an \<^verbatim>\<open>unsigned\<close>.
\<close>

function a_loop :: "check_fn \<Rightarrow> nat \<Rightarrow> int \<Rightarrow> 32 word \<Rightarrow> 32 word \<Rightarrow> int \<Rightarrow> 32 word \<Rightarrow> 32 word
    \<Rightarrow> 32 word \<Rightarrow> int \<Rightarrow> int \<Rightarrow> int \<Rightarrow> int \<Rightarrow> 32 word
    \<Rightarrow> nat \<times> parameter_set list \<Rightarrow> error + nat \<times> parameter_set list" where
  "a_loop chk heap sec_level num_sig sign_op a_restrict hash_size w wd h_merkle h d
      cost_hypertree a st =
     (if a < 30 then
        (if a_restrict \<noteq> 0 \<and> a \<noteq> word_of_int a_restrict then
           a_loop chk heap sec_level num_sig sign_op a_restrict hash_size w wd h_merkle h d
             cost_hypertree (a + 1) st
         else
           (case k_loop chk heap sec_level num_sig sign_op hash_size w wd h_merkle h d
                   cost_hypertree a (word_of_int (3 * push_bit (unat a) 1 - 1)) 1 st of
              Inl e \<Rightarrow> Inl e
            | Inr st' \<Rightarrow>
                a_loop chk heap sec_level num_sig sign_op a_restrict hash_size w wd h_merkle h d
                  cost_hypertree (a + 1) st'))
      else Inr st)"
  by pat_completeness auto
termination
  by (relation "measure (\<lambda>(chk, heap, sec_level, num_sig, sign_op, a_restrict, hash_size, w, wd,
        h_merkle, h, d, cost_hypertree, a, st). 30 - unat a)")
    (simp_all add: word_less_nat_alt unat_word_ariths)

text \<open>
  \<^verbatim>\<open>float cost_hypertree = d*((float)(cost_ots+1) * node_tree - 1)\<close>: the conversions of
  \<^verbatim>\<open>cost_ots+1\<close>, \<^verbatim>\<open>node_tree\<close>, \<^verbatim>\<open>1\<close> and \<^verbatim>\<open>d\<close> to \<^verbatim>\<open>float\<close>, and the three operations.
\<close>

definition hypertree_cost :: "int \<Rightarrow> 32 word \<Rightarrow> 32 word \<Rightarrow> int" where
  "hypertree_cost d cost_ots node_tree =
     fl (fl d * fl (fl (fl (uint (cost_ots + 1)) * fl (uint node_tree)) - fl 1))"

text \<open>
  \<^verbatim>\<open>for (h = h_merkle, d = 1; h <= sec_level+30; h += h_merkle, d++)\<close>. The comparison
  \<^verbatim>\<open>h < num_sig - 5\<close> is between an \<^verbatim>\<open>int\<close> and an \<^verbatim>\<open>unsigned\<close>: \<^verbatim>\<open>h\<close> is converted to
  \<^verbatim>\<open>unsigned\<close> and the subtraction wraps around.
\<close>

definition too_few_leaves :: "int \<Rightarrow> 32 word \<Rightarrow> bool" where
  "too_few_leaves h num_sig \<longleftrightarrow> (word_of_int h :: 32 word) < num_sig - 5"

function h_loop :: "check_fn \<Rightarrow> nat \<Rightarrow> int \<Rightarrow> 32 word \<Rightarrow> 32 word \<Rightarrow> int \<Rightarrow> int \<Rightarrow> 32 word \<Rightarrow> 32 word
    \<Rightarrow> 32 word \<Rightarrow> 32 word \<Rightarrow> int \<Rightarrow> 32 word \<Rightarrow> int \<Rightarrow> int
    \<Rightarrow> nat \<times> parameter_set list \<Rightarrow> error + nat \<times> parameter_set list" where
  "h_loop chk heap sec_level num_sig sign_op d_restrict a_restrict hash_size w wd cost_ots
      h_merkle node_tree h d st =
     (if h \<le> sec_level + 30 then
        (if d \<ge> 30 then Inr st
         else if d_restrict \<noteq> 0 \<and> d \<noteq> d_restrict then
           h_loop chk heap sec_level num_sig sign_op d_restrict a_restrict hash_size w wd cost_ots
             h_merkle node_tree (h + h_merkle) (d + 1) st
         else if too_few_leaves h num_sig then
           h_loop chk heap sec_level num_sig sign_op d_restrict a_restrict hash_size w wd cost_ots
             h_merkle node_tree (h + h_merkle) (d + 1) st
         else if hypertree_cost d cost_ots node_tree \<ge> fl (uint sign_op) then Inr st
         else
           (case a_loop chk heap sec_level num_sig sign_op a_restrict hash_size w wd h_merkle h d
                   (hypertree_cost d cost_ots node_tree) 1 st of
              Inl e \<Rightarrow> Inl e
            | Inr st' \<Rightarrow>
                h_loop chk heap sec_level num_sig sign_op d_restrict a_restrict hash_size w wd
                  cost_ots h_merkle node_tree (h + h_merkle) (d + 1) st'))
      else Inr st)"
  by pat_completeness auto
termination
  by (relation "measure (\<lambda>(chk, heap, sec_level, num_sig, sign_op, d_restrict, a_restrict,
        hash_size, w, wd, cost_ots, h_merkle, node_tree, h, d, st). nat (30 - d))")
    simp_all

text \<open>
  \<^verbatim>\<open>for (h_merkle = 2; h_merkle <= sec_level+20 && h_merkle < 32; h_merkle++)\<close>, with
  \<^verbatim>\<open>node_tree = 1<<h_merkle\<close>.
\<close>

function hm_loop :: "check_fn \<Rightarrow> nat \<Rightarrow> int \<Rightarrow> 32 word \<Rightarrow> 32 word \<Rightarrow> int \<Rightarrow> int \<Rightarrow> int \<Rightarrow> 32 word
    \<Rightarrow> 32 word \<Rightarrow> 32 word \<Rightarrow> 32 word \<Rightarrow> int
    \<Rightarrow> nat \<times> parameter_set list \<Rightarrow> error + nat \<times> parameter_set list" where
  "hm_loop chk heap sec_level num_sig sign_op d_restrict h_restrict a_restrict hash_size w wd
      cost_ots h_merkle st =
     (if h_merkle \<le> sec_level + 20 \<and> h_merkle < 32 then
        (if h_restrict \<noteq> 0 \<and> h_merkle \<noteq> h_restrict then
           hm_loop chk heap sec_level num_sig sign_op d_restrict h_restrict a_restrict hash_size
             w wd cost_ots (h_merkle + 1) st
         else
           (case h_loop chk heap sec_level num_sig sign_op d_restrict a_restrict hash_size w wd
                   cost_ots h_merkle (word_of_int (push_bit (nat h_merkle) 1)) h_merkle 1 st of
              Inl e \<Rightarrow> Inl e
            | Inr st' \<Rightarrow>
                hm_loop chk heap sec_level num_sig sign_op d_restrict h_restrict a_restrict
                  hash_size w wd cost_ots (h_merkle + 1) st'))
      else Inr st)"
  by pat_completeness auto
termination
  by (relation "measure (\<lambda>(chk, heap, sec_level, num_sig, sign_op, d_restrict, h_restrict,
        a_restrict, hash_size, w, wd, cost_ots, h_merkle, st). nat (32 - h_merkle))")
    simp_all

text \<open>
  The three queues \<^verbatim>\<open>w16_q\<close>, \<^verbatim>\<open>w256_q\<close> and \<^verbatim>\<open>wother_q\<close>, and the choice of
  \<^verbatim>\<open>current_list\<close> from \<^verbatim>\<open>w\<close>.
\<close>

type_synonym queues = "parameter_set list \<times> parameter_set list \<times> parameter_set list"

definition current_list :: "32 word \<Rightarrow> queues \<Rightarrow> parameter_set list" where
  "current_list w qs =
     (case qs of (w16_q, w256_q, wother_q) \<Rightarrow>
        if w = 16 then w16_q else if w = 256 \<or> w = 4 then w256_q else wother_q)"

definition set_current_list :: "32 word \<Rightarrow> parameter_set list \<Rightarrow> queues \<Rightarrow> queues" where
  "set_current_list w list qs =
     (case qs of (w16_q, w256_q, wother_q) \<Rightarrow>
        if w = 16 then (list, w256_q, wother_q)
        else if w = 256 \<or> w = 4 then (w16_q, list, wother_q)
        else (w16_q, w256_q, list))"

text \<open>
  \<^verbatim>\<open>for (w = 4, log_w = 2; w <= 256; w <<= 1, log_w++)\<close>: the digit counts, the cost of
  a one-time public key, and the iteration over the tree shapes. \<open>None\<close> stands for a run
  that does not come back from the checksum loop.
\<close>

partial_function (option) w_loop :: "check_fn \<Rightarrow> nat \<Rightarrow> int \<Rightarrow> 32 word \<Rightarrow> 32 word \<Rightarrow> int \<Rightarrow> int
    \<Rightarrow> int \<Rightarrow> 32 word \<Rightarrow> 32 word \<Rightarrow> 32 word \<Rightarrow> nat \<times> queues \<Rightarrow> (error + nat \<times> queues) option" where
  "w_loop chk heap sec_level num_sig sign_op d_restrict h_restrict a_restrict hash_size w log_w st =
     (if w \<le> 256 then
        (let hash_d = (word_of_int sec_level + log_w - 1) div log_w;
             max_sum = (w - 1) * hash_d
         in case checksum_loop w max_sum 1 w of
              None \<Rightarrow> None
            | Some checksum_d \<Rightarrow>
                (let wd = hash_d + checksum_d;
                     cost_ots = 1 + wd * w
                 in case hm_loop chk heap sec_level num_sig sign_op d_restrict h_restrict
                           a_restrict hash_size w wd cost_ots 2
                           (fst st, current_list w (snd st)) of
                      Inl e \<Rightarrow> Some (Inl e)
                    | Inr (n, list) \<Rightarrow>
                        w_loop chk heap sec_level num_sig sign_op d_restrict h_restrict a_restrict
                          hash_size (push_bit 1 w) (log_w + 1)
                          (n, set_current_list w list (snd st))))
      else Some (Inr st))"

declare w_loop.simps [code]

text \<open>
  The first half of \<^verbatim>\<open>do_search\<close>: the queues when the enumeration is over, before they
  are sorted. \<^verbatim>\<open>hash_size = (sec_level + 7)/8\<close> is a division of \<^verbatim>\<open>int\<close>s.
\<close>

definition search_queues :: "check_fn \<Rightarrow> nat \<Rightarrow> int \<Rightarrow> 32 word \<Rightarrow> 32 word \<Rightarrow> int \<Rightarrow> int \<Rightarrow> int
    \<Rightarrow> (error + nat \<times> queues) option" where
  "search_queues chk heap sec_level num_sig sign_op d_restrict h_restrict a_restrict =
     w_loop chk heap sec_level num_sig sign_op d_restrict h_restrict a_restrict
       (word_of_int ((sec_level + 7) sdiv 8)) 4 2 (0, [], [], [])"

subsection \<open>The selection of the listed parameter sets\<close>

text \<open>
  The choice of the next parameter set. A pointer to a list node is the list that
  starts there, so \<open>p\<close> is a list, \<^verbatim>\<open>!p\<close> is \<open>p = []\<close> and \<^verbatim>\<open>p->sig_size\<close> is
  \<open>sig_size (hd p)\<close>, read only where the source has tested the pointer.
\<close>

definition pick_winner :: "queues \<Rightarrow> parameter_set list \<times> nat" where
  "pick_winner qs =
     (case qs of (w16_q, w256_q, wother_q) \<Rightarrow>
        (let pw = (w16_q, 0);
             pw = (if fst pw = [] \<or> (w256_q \<noteq> [] \<and> sig_size (hd w256_q) < sig_size (hd (fst pw)))
                   then (w256_q, 1) else pw);
             pw = (if fst pw = [] \<or> (wother_q \<noteq> [] \<and> sig_size (hd wother_q) < sig_size (hd (fst pw)))
                   then (wother_q, 2) else pw)
         in pw))"

text \<open>\<^verbatim>\<open>switch (winner)\<close>: the winner's queue advances to \<^verbatim>\<open>p->link\<close>.\<close>

definition pull_winner :: "nat \<Rightarrow> parameter_set list \<Rightarrow> queues \<Rightarrow> queues" where
  "pull_winner winner p qs =
     (case qs of (w16_q, w256_q, wother_q) \<Rightarrow>
        if winner = 0 then (tl p, w256_q, wother_q)
        else if winner = 1 then (w16_q, tl p, wother_q)
        else if winner = 2 then (w16_q, w256_q, tl p)
        else qs)"

text \<open>
  \<^verbatim>\<open>for (int j=winner; j<3; j++)\<close> on the arrays \<^verbatim>\<open>min_sec_level\<close> and \<^verbatim>\<open>cutoff\<close>.
\<close>

function update_levels :: "nat \<Rightarrow> int \<Rightarrow> int \<Rightarrow> int list \<times> int list \<Rightarrow> int list \<times> int list" where
  "update_levels j overuse do_cutoff lv =
     (if j < 3 then
        update_levels (j + 1) overuse do_cutoff
          ((if overuse > fst lv ! j then (fst lv)[j := overuse] else fst lv),
           (snd lv)[j := (snd lv ! j) OR do_cutoff])
      else lv)"
  by pat_completeness auto
termination
  by (relation "measure (\<lambda>(j, overuse, do_cutoff, lv). 3 - j)") auto

text \<open>
  \<^verbatim>\<open>while (w16_q || w256_q || wother_q)\<close>. \<open>lv\<close> holds the arrays
  \<^verbatim>\<open>min_sec_level\<close> and \<^verbatim>\<open>cutoff\<close>, \<open>print_list\<close> the list built through
  \<^verbatim>\<open>end_print_list\<close>. The result is \<open>None\<close> when \<^verbatim>\<open>compute_sigs_at_sec_level\<close> has none.
\<close>

function select_loop :: "level_fn \<Rightarrow> 32 word \<Rightarrow> int \<Rightarrow> queues \<Rightarrow> int list \<times> int list
    \<Rightarrow> parameter_set list \<Rightarrow> parameter_set list option" where
  "select_loop csl test_sec_level max_s qs lv print_list =
     (if fst qs \<noteq> [] \<or> fst (snd qs) \<noteq> [] \<or> snd (snd qs) \<noteq> [] then
        (let p = fst (pick_winner qs); winner = snd (pick_winner qs);
             qs' = pull_winner winner p qs
         in if snd lv ! winner \<noteq> 0 then select_loop csl test_sec_level max_s qs' lv print_list
            else
              (case compute_sigs_at_sec_level csl (real (unat test_sec_level))
                      (uint (p_h (hd p))) (uint (p_a (hd p))) (uint (p_k (hd p))) of
                 None \<Rightarrow> None
               | Some overuse \<Rightarrow>
                   if overuse \<le> fst lv ! winner then
                     select_loop csl test_sec_level max_s qs' lv print_list
                   else
                     (let do_cutoff = (if max_s \<noteq> 0 \<and> overuse sdiv 100 \<ge> max_s then 1 else 0);
                          lv' = update_levels winner overuse do_cutoff lv
                      in if snd lv' ! 0 \<noteq> 0 then Some (print_list @ [hd p])
                         else select_loop csl test_sec_level max_s qs' lv' (print_list @ [hd p]))))
      else Some print_list)"
  by pat_completeness auto
termination
proof (relation "measure (\<lambda>(csl, test_sec_level, max_s, qs, lv, print_list).
    length (fst qs) + length (fst (snd qs)) + length (snd (snd qs)))", goal_cases)
  case 1
  show ?case by simp
next
  case (2 csl test_sec_level max_s qs lv print_list p winner qs')
  then show ?case
    by (cases qs) (auto simp: pick_winner_def pull_winner_def Let_def split: if_splits)
next
  case (3 csl test_sec_level max_s qs lv print_list p winner qs' overuse)
  then show ?case
    by (cases qs) (auto simp: pick_winner_def pull_winner_def Let_def split: if_splits)
next
  case (4 csl test_sec_level max_s qs lv print_list p winner qs' overuse do_cutoff lv')
  then show ?case
    by (cases qs) (auto simp: pick_winner_def pull_winner_def Let_def split: if_splits)
qed

text \<open>
  \<^verbatim>\<open>do_search\<close> up to the point where \<^verbatim>\<open>print_list\<close> is complete; the rest of the
  function formats that list. \<open>Some (Inl Out_Of_Memory)\<close> is the early \<^verbatim>\<open>return\<close> after a
  failed \<^verbatim>\<open>malloc\<close>, \<open>Some (Inr print_list)\<close> the list that is printed. The argument
  \<^verbatim>\<open>label\<close> only names output files and is left out.
\<close>

definition do_search :: "check_fn \<Rightarrow> level_fn \<Rightarrow> nat \<Rightarrow> int \<Rightarrow> 32 word \<Rightarrow> 32 word \<Rightarrow> 32 word \<Rightarrow> int
    \<Rightarrow> int \<Rightarrow> int \<Rightarrow> int \<Rightarrow> (error + parameter_set list) option" where
  "do_search chk csl heap sec_level num_sig test_sec_level sign_op max_s
      d_restrict h_restrict a_restrict =
     (case search_queues chk heap sec_level num_sig sign_op d_restrict h_restrict a_restrict of
        None \<Rightarrow> None
      | Some (Inl e) \<Rightarrow> Some (Inl e)
      | Some (Inr (n, w16_q, w256_q, wother_q)) \<Rightarrow>
          (case select_loop csl test_sec_level max_s
                  (my_sort w16_q, my_sort w256_q, my_sort wother_q)
                  ([0, 0, 0], [0, 0, 0]) [] of
             None \<Rightarrow> None
           | Some print_list \<Rightarrow> Some (Inr print_list)))"

subsection \<open>Notions for stating the properties\<close>

text \<open>
  The width class of a recorded \<^verbatim>\<open>w\<close>, numbered as \<^verbatim>\<open>winner\<close> numbers the queues:
  0 for \<open>w = 16\<close>, 1 for \<open>w = 4\<close> and \<open>w = 256\<close>, 2 for the rest.
\<close>

definition width_class :: "16 word \<Rightarrow> nat" where
  "width_class w = (if w = 16 then 0 else if w = 256 \<or> w = 4 then 1 else 2)"

text \<open>
  The overuse score of a parameter set, as the selection computes it:
  \<^verbatim>\<open>compute_sigs_at_sec_level( test_sec_level, p->h, p->a, p->k )\<close>.
\<close>

definition overuse_score :: "level_fn \<Rightarrow> 32 word \<Rightarrow> parameter_set \<Rightarrow> int option" where
  "overuse_score csl test_sec_level p =
     compute_sigs_at_sec_level csl (real (unat test_sec_level))
       (uint (p_h p)) (uint (p_a p)) (uint (p_k p))"

text \<open>The queue that \<^verbatim>\<open>winner\<close> number \<open>c\<close> stands for.\<close>

definition queue_of :: "nat \<Rightarrow> queues \<Rightarrow> parameter_set list" where
  "queue_of c qs =
     (case qs of (w16_q, w256_q, wother_q) \<Rightarrow>
        if c = 0 then w16_q else if c = 1 then w256_q else wother_q)"

text \<open>The \<^verbatim>\<open>winner\<close> number of the queue that \<^verbatim>\<open>current_list\<close> points to for a given \<open>w\<close>.\<close>

definition queue_index :: "32 word \<Rightarrow> nat" where
  "queue_index w = (if w = 16 then 0 else if w = 256 \<or> w = 4 then 1 else 2)"

text \<open>
  The tests of the three inner loops that a tuple \<open>(h, d, a, k)\<close> has passed when a record
  is allocated for it, the call of \<^verbatim>\<open>check_sec_level\<close> apart: the bounds of the loops, the
  test on the number of leaves, the two tests against the budget (the second one at
  \<open>k\<close> and, since the loop over \<open>k\<close> starts at 1 and stops at the first failure, at 1).
\<close>

definition passes_tests :: "int \<Rightarrow> 32 word \<Rightarrow> 32 word \<Rightarrow> 32 word \<Rightarrow> 32 word \<Rightarrow> int \<Rightarrow> int
    \<Rightarrow> 32 word \<Rightarrow> 32 word \<Rightarrow> bool" where
  "passes_tests sec_level num_sig sign_op cost_ots node_tree h d a k \<longleftrightarrow>
     d < 30 \<and> h \<le> sec_level + 30 \<and> \<not> too_few_leaves h num_sig \<and>
     \<not> hypertree_cost d cost_ots node_tree \<ge> fl (uint sign_op) \<and>
     1 \<le> unat a \<and> a < 30 \<and> 1 \<le> unat k \<and> k < MAX_K \<and>
     \<not> fl (hypertree_cost d cost_ots node_tree +
           fl (uint (k * word_of_int (3 * push_bit (unat a) 1 - 1)))) > fl (uint sign_op) \<and>
     \<not> fl (hypertree_cost d cost_ots node_tree +
           fl (uint (1 * (word_of_int (3 * push_bit (unat a) 1 - 1) :: 32 word))))
         > fl (uint sign_op)"

text \<open>
  The size and the cost of a parameter set as the documentation gives them, on natural
  numbers (no rounding, no wrap-around): the signature is one randomiser, \<open>k\<close> FORS leaves
  with their authentication paths of \<open>a\<close> nodes, and \<open>d\<close> one-time signatures of \<open>wd\<close>
  digits with their Merkle paths of \<open>h_merkle\<close> nodes, each of \<open>hash_size\<close> bytes; a
  one-time public key costs \<open>1 + wd * w\<close> hashes, a Merkle tree of \<open>2 ^ h_merkle\<close>
  leaves costs one more hash per leaf and one hash less in total, a FORS tree of
  \<open>2 ^ a\<close> leaves costs \<open>3 * 2 ^ a - 1\<close>.
\<close>

definition formula_sig_size :: "nat \<Rightarrow> nat \<Rightarrow> nat \<Rightarrow> nat \<Rightarrow> nat \<Rightarrow> nat \<Rightarrow> nat" where
  "formula_sig_size hash_size wd h_merkle d a k =
     hash_size * (1 + k * (a + 1) + d * (wd + h_merkle))"

definition formula_cost_hypertree :: "nat \<Rightarrow> nat \<Rightarrow> nat \<Rightarrow> nat \<Rightarrow> nat" where
  "formula_cost_hypertree w wd h_merkle d = d * ((1 + wd * w + 1) * 2 ^ h_merkle - 1)"

definition formula_cost_fors_tree :: "nat \<Rightarrow> nat" where
  "formula_cost_fors_tree a = 3 * 2 ^ a - 1"

definition formula_sig_time :: "nat \<Rightarrow> nat \<Rightarrow> nat \<Rightarrow> nat" where
  "formula_sig_time cost_hypertree cost_fors_tree k = 3 + cost_hypertree + k * cost_fors_tree"

text \<open>
  A list of parameter sets in which every entry has a strictly higher overuse score
  than each earlier entry of an equal or easier width class.
\<close>

definition overuse_ordered :: "level_fn \<Rightarrow> 32 word \<Rightarrow> parameter_set list \<Rightarrow> bool" where
  "overuse_ordered csl test_sec_level xs \<longleftrightarrow>
     (\<forall>i j. i < j \<and> j < length xs \<and>
        width_class (p_w (xs ! i)) \<le> width_class (p_w (xs ! j)) \<longrightarrow>
        (\<exists>oi oj. overuse_score csl test_sec_level (xs ! i) = Some oi \<and>
           overuse_score csl test_sec_level (xs ! j) = Some oj \<and> oi < oj))"

text \<open>
  A concrete estimator for evaluating the functions above at explicit inputs. The first
  term of the series is \<open>2 ^ (m - H) * 2 ^ (- T * K)\<close>, so while \<open>2 ^ (m - H)\<close> is small
  the security level is \<open>H + K * T - m\<close> up to a vanishing remainder. The check that
  goes with it compares this level with the target.
\<close>

definition low_overuse_level :: level_fn where
  "low_overuse_level m H T K = real_of_int H + real_of_int (K * T) - m"

definition low_overuse_check :: check_fn where
  "low_overuse_check m H T K s \<longleftrightarrow> low_overuse_level m H T K \<ge> s"

declare scan_lower.simps [simp del] scan_fract.simps [simp del]
declare k_loop.simps [simp del] a_loop.simps [simp del] h_loop.simps [simp del]
  hm_loop.simps [simp del]
declare select_loop.simps [simp del] update_levels.simps [simp del] float_exp.simps [simp del]
declare ripple.simps [simp del] combine_bins.simps [simp del]

section \<open>Correctness of the sort\<close>

lemma mset_my_merge: "mset (my_merge xs ys) = mset xs + mset ys"
  by (induction xs ys rule: my_merge.induct) auto

lemma set_my_merge: "set (my_merge xs ys) = set xs \<union> set ys"
  by (induction xs ys rule: my_merge.induct) auto

lemma my_compare_best_first: "my_compare x y \<ge> 0 \<longleftrightarrow> best_first x y"
  by (auto simp: my_compare_def best_first_def)

lemma best_first_total: "\<not> best_first x y \<Longrightarrow> best_first y x"
  by (auto simp: best_first_def)

lemma best_first_trans: "best_first x y \<Longrightarrow> best_first y z \<Longrightarrow> best_first x z"
  by (auto simp: best_first_def)

lemma best_first_refl: "best_first x x"
  by (auto simp: best_first_def)

lemma sorted_my_merge:
  "sorted_wrt best_first xs \<Longrightarrow> sorted_wrt best_first ys \<Longrightarrow> sorted_wrt best_first (my_merge xs ys)"
proof (induction xs ys rule: my_merge.induct)
  case (1 x xs y ys)
  show ?case
  proof (cases "my_compare x y \<ge> 0")
    case True
    then have xy: "best_first x y" by (simp add: my_compare_best_first)
    have "\<forall>z \<in> set (my_merge xs (y # ys)). best_first x z"
      using 1(3,4) xy by (auto simp: set_my_merge intro: best_first_trans)
    with 1 True show ?thesis by simp
  next
    case False
    then have yx: "best_first y x" using best_first_total by (simp add: my_compare_best_first)
    have "\<forall>z \<in> set (my_merge (x # xs) ys). best_first y z"
      using 1(3,4) yx by (auto simp: set_my_merge intro: best_first_trans)
    with 1 False show ?thesis by simp
  qed
qed simp_all

lemma mset_concat_update:
  "i < length bins \<Longrightarrow> mset (concat (bins[i := p])) + mset (bins ! i) = mset (concat bins) + mset p"
proof (induction bins arbitrary: i)
  case Nil then show ?case by simp
next
  case (Cons b bins)
  then show ?case by (cases i) (auto simp: algebra_simps)
qed

lemma ripple_length:
  "ripple i p bins = (i', p', bins') \<Longrightarrow> length bins' = length bins"
proof (induction i p bins rule: ripple.induct)
  case (1 i p bins)
  then show ?case
    by (subst (asm) (2) ripple.simps) (auto split: if_splits)
qed

lemma ripple_index:
  "ripple i p bins = (i', p', bins') \<Longrightarrow> i \<le> NUM_BIN \<Longrightarrow> i' \<le> NUM_BIN"
proof (induction i p bins rule: ripple.induct)
  case (1 i p bins)
  then show ?case
    by (subst (asm) (2) ripple.simps) (auto split: if_splits)
qed


lemma ripple_sorted:
  "ripple i p bins = (i', p', bins') \<Longrightarrow> length bins = NUM_BIN \<Longrightarrow>
   \<forall>b \<in> set bins. sorted_wrt best_first b \<Longrightarrow> sorted_wrt best_first p \<Longrightarrow>
   (\<forall>b \<in> set bins'. sorted_wrt best_first b) \<and> sorted_wrt best_first p'"
proof (induction i p bins rule: ripple.induct)
  case (1 i p bins)
  show ?case
  proof (cases "i < NUM_BIN")
    case False
    with 1(2) have "bins' = bins" "p' = p"
      by (subst (asm) ripple.simps, simp)+
    with 1(4,5) show ?thesis by simp
  next
    case lt: True
    show ?thesis
    proof (cases "bins ! i = []")
      case True
      with lt 1(2) have "bins' = bins[i := p]" "p' = p"
        by (subst (asm) ripple.simps, simp)+
      with 1(4,5) show ?thesis
        by (auto dest!: set_update_subset_insert [THEN subsetD])
    next
      case False
      with lt 1(2) have r: "ripple (i + 1) (my_merge (bins ! i) p) (bins[i := []]) = (i', p', bins')"
        by (subst (asm) ripple.simps) simp
      have "sorted_wrt best_first (bins ! i)"
        using 1(3,4) lt by simp
      then have m: "sorted_wrt best_first (my_merge (bins ! i) p)"
        using 1(5) by (rule sorted_my_merge)
      have b: "\<forall>b \<in> set (bins[i := []]). sorted_wrt best_first b"
        using 1(4) by (auto dest!: set_update_subset_insert [THEN subsetD])
      show ?thesis
        using 1(1) [OF lt False r _ b m] 1(3) by simp
    qed
  qed
qed

lemma ripple_mset:
  "ripple i p bins = (i', p', bins') \<Longrightarrow> length bins = NUM_BIN \<Longrightarrow>
   (if i' < NUM_BIN then mset (concat bins') = mset (concat bins) + mset p
    else mset (concat bins') + mset p' = mset (concat bins) + mset p \<and>
         (i < NUM_BIN \<longrightarrow> bins' ! (NUM_BIN - 1) = []))"
proof (induction i p bins rule: ripple.induct)
  case (1 i p bins)
  show ?case
  proof (cases "i < NUM_BIN")
    case False
    with 1(2) have "bins' = bins" "p' = p" "i' = i"
      by (subst (asm) ripple.simps, simp)+
    with False show ?thesis by simp
  next
    case lt: True
    show ?thesis
    proof (cases "bins ! i = []")
      case True
      with lt 1(2) have "bins' = bins[i := p]" "i' = i"
        by (subst (asm) ripple.simps, simp)+
      with lt True mset_concat_update [of i bins p] 1(3) show ?thesis by simp
    next
      case False
      with lt 1(2) have r: "ripple (i + 1) (my_merge (bins ! i) p) (bins[i := []]) = (i', p', bins')"
        by (subst (asm) ripple.simps) simp
      have ih: "if i' < NUM_BIN
          then mset (concat bins') = mset (concat (bins[i := []])) + mset (my_merge (bins ! i) p)
          else mset (concat bins') + mset p' =
                 mset (concat (bins[i := []])) + mset (my_merge (bins ! i) p) \<and>
               (i + 1 < NUM_BIN \<longrightarrow> bins' ! (NUM_BIN - 1) = [])"
        using 1(1) [OF lt False r] 1(3) by simp
      have u: "mset (concat (bins[i := []])) + mset (bins ! i) = mset (concat bins)"
        using mset_concat_update [of i bins "[]"] lt 1(3) by simp
      have last: "i + 1 = NUM_BIN \<Longrightarrow> bins' ! (NUM_BIN - 1) = []"
      proof -
        assume e: "i + 1 = NUM_BIN"
        then have "\<not> Suc i < NUM_BIN" by simp
        with r have "bins' = bins[i := []]"
          by (subst (asm) ripple.simps) simp
        moreover from e have "NUM_BIN - 1 = i" by simp
        ultimately show ?thesis using lt 1(3) by simp
      qed
      show ?thesis
      proof (cases "i' < NUM_BIN")
        case True
        with ih u show ?thesis by (simp add: mset_my_merge ac_simps)
      next
        case False
        with ih have a: "mset (concat bins') + mset p' =
                 mset (concat (bins[i := []])) + mset (my_merge (bins ! i) p)"
          and b: "i + 1 < NUM_BIN \<longrightarrow> bins' ! (NUM_BIN - 1) = []" by simp_all
        have "bins' ! (NUM_BIN - 1) = []"
          using b last lt by (cases "i + 1 < NUM_BIN") auto
        moreover have "mset (concat bins') + mset p' = mset (concat bins) + mset p"
          using a u by (metis mset_my_merge add.assoc)
        ultimately show ?thesis using False by simp
      qed
    qed
  qed
qed

lemma bin_insert_ok:
  assumes "length bins = NUM_BIN" "\<forall>b \<in> set bins. sorted_wrt best_first b"
  shows "length (bin_insert x bins) = NUM_BIN"
    and "\<forall>b \<in> set (bin_insert x bins). sorted_wrt best_first b"
    and "mset (concat (bin_insert x bins)) = mset (concat bins) + {#x#}"
proof -
  obtain i' p' bins' where r: "ripple 0 [x] bins = (i', p', bins')"
    by (cases "ripple 0 [x] bins") auto
  have len: "length bins' = NUM_BIN" using ripple_length [OF r] assms(1) by simp
  have srt: "(\<forall>b \<in> set bins'. sorted_wrt best_first b) \<and> sorted_wrt best_first p'"
    using ripple_sorted [OF r assms(1) assms(2)] by simp
  have ms: "if i' < NUM_BIN then mset (concat bins') = mset (concat bins) + mset [x]
    else mset (concat bins') + mset p' = mset (concat bins) + mset [x] \<and>
         ((0::nat) < NUM_BIN \<longrightarrow> bins' ! (NUM_BIN - 1) = [])"
    using ripple_mset [OF r assms(1)] .
  have idx: "i' \<le> NUM_BIN" using ripple_index [OF r] by simp
  show "length (bin_insert x bins) = NUM_BIN"
    using len by (simp add: bin_insert_def r)
  show "\<forall>b \<in> set (bin_insert x bins). sorted_wrt best_first b"
    using srt by (auto simp: bin_insert_def r dest!: set_update_subset_insert [THEN subsetD])
  show "mset (concat (bin_insert x bins)) = mset (concat bins) + {#x#}"
  proof (cases "i' = NUM_BIN")
    case True
    with ms have a: "mset (concat bins') + mset p' = mset (concat bins) + mset [x]"
      and b: "bins' ! (NUM_BIN - 1) = []" by (simp_all add: NUM_BIN_def)
    have "mset (concat (bins'[NUM_BIN - 1 := p'])) + mset (bins' ! (NUM_BIN - 1)) =
        mset (concat bins') + mset p'"
      by (rule mset_concat_update) (simp add: len NUM_BIN_def)
    with a b True show ?thesis by (simp add: bin_insert_def r)
  next
    case False
    with idx have "i' < NUM_BIN" by simp
    with ms False show ?thesis by (simp add: bin_insert_def r)
  qed
qed

lemma sort_loop_ok:
  "length bins = NUM_BIN \<Longrightarrow> \<forall>b \<in> set bins. sorted_wrt best_first b \<Longrightarrow>
   length (sort_loop list bins) = NUM_BIN \<and>
   (\<forall>b \<in> set (sort_loop list bins). sorted_wrt best_first b) \<and>
   mset (concat (sort_loop list bins)) = mset (concat bins) + mset list"
proof (induction list arbitrary: bins)
  case Nil
  then show ?case by simp
next
  case (Cons x list)
  from bin_insert_ok [OF Cons.prems] Cons.IH [of "bin_insert x bins"]
  show ?case by simp
qed

lemma combine_bins_ok:
  "length bins = NUM_BIN \<Longrightarrow> \<forall>b \<in> set bins. sorted_wrt best_first b \<Longrightarrow>
   sorted_wrt best_first p \<Longrightarrow>
   sorted_wrt best_first (combine_bins i p bins) \<and>
   mset (combine_bins i p bins) = mset p + mset (concat (drop i bins))"
proof (induction i p bins rule: combine_bins.induct)
  case (1 i p bins)
  show ?case
  proof (cases "i < NUM_BIN")
    case False
    with 1(2,4) show ?thesis by (subst (1 2) combine_bins.simps) simp
  next
    case True
    have s: "sorted_wrt best_first (my_merge (bins ! i) p)"
      using 1(2,3,4) True by (intro sorted_my_merge) simp_all
    have d: "drop i bins = bins ! i # drop (i + 1) bins"
      using True 1(2) by (simp add: Cons_nth_drop_Suc)
    from 1(1) [OF True 1(2) 1(3) s] True d show ?thesis
      by (subst (1 2) combine_bins.simps) (simp add: mset_my_merge)
  qed
qed

lemma my_sort_mset: "mset (my_sort list) = mset list"
  and my_sort_sorted: "sorted_wrt best_first (my_sort list)"
proof -
  have "length (replicate NUM_BIN ([]::parameter_set list)) = NUM_BIN" by simp
  moreover have "\<forall>b \<in> set (replicate NUM_BIN ([]::parameter_set list)). sorted_wrt best_first b"
    by simp
  ultimately have a: "length (sort_loop list (replicate NUM_BIN [])) = NUM_BIN \<and>
   (\<forall>b \<in> set (sort_loop list (replicate NUM_BIN [])). sorted_wrt best_first b) \<and>
   mset (concat (sort_loop list (replicate NUM_BIN []))) =
     mset (concat (replicate NUM_BIN [])) + mset list"
    by (rule sort_loop_ok)
  have c: "concat (replicate NUM_BIN ([]::parameter_set list)) = []" by simp
  from a combine_bins_ok [of "sort_loop list (replicate NUM_BIN [])" "[]" 0] c
  show "mset (my_sort list) = mset list" and "sorted_wrt best_first (my_sort list)"
    by (simp_all add: my_sort_def)
qed

text \<open>
  Claim C8. For every list of parameter sets, \<^verbatim>\<open>my_sort\<close> returns a permutation of its
  input (every element exactly once, whatever the length and however far a carry ripples
  through the bins), and the result is in best-first order: each element precedes only
  elements that the comparator does not rank before it, that is, signature size
  ascending, then signing cost ascending, then verification cost ascending.
\<close>

theorem my_sort_permutation_best_first:
  "mset (my_sort list) = mset list \<and>
   sorted_wrt (\<lambda>x y. my_compare x y \<ge> 0) (my_sort list) \<and>
   sorted_wrt best_first (my_sort list)"
proof -
  have "(\<lambda>x y. my_compare x y \<ge> 0) = best_first"
    by (intro ext) (rule my_compare_best_first)
  then show ?thesis
    using my_sort_mset [of list] my_sort_sorted [of list] by simp
qed

section \<open>The scan for the number of signatures at a security level\<close>


lemma scan_lower_returns:
  "n \<le> m \<Longrightarrow> m < INT_MAX \<Longrightarrow> csl (real_of_int (m + 1)) H T K < t \<Longrightarrow>
   \<exists>lower. scan_lower csl t H T K n = Some lower \<and> lower \<le> m"
proof (induction csl t H T K n rule: scan_lower.induct)
  case (1 csl sec_level H T K lower')
  show ?case
  proof (cases "csl (real_of_int (lower' + 1)) H T K < sec_level")
    case True
    with 1(2,3) show ?thesis by (subst scan_lower.simps) simp
  next
    case False
    with 1(2,4) have "lower' \<noteq> m" by auto
    with 1(2) have lt: "lower' + 1 \<le> m" by simp
    with 1(3) have nmax: "\<not> lower' \<ge> INT_MAX" by simp
    from 1(1) [OF nmax False lt 1(3) 1(4)] nmax False show ?thesis
      by (subst scan_lower.simps) simp
  qed
qed

lemma scan_fract_result:
  "0 \<le> f \<Longrightarrow> f \<le> 100 \<Longrightarrow>
   f \<le> scan_fract csl t H T K lower f \<and> scan_fract csl t H T K lower f \<le> 100 \<and>
   (scan_fract csl t H T K lower f < 100 \<longrightarrow>
      csl (real_of_int lower + real_of_int (scan_fract csl t H T K lower f) * 0.01 + 0.005) H T K < t) \<and>
   (\<forall>j. f \<le> j \<and> j < scan_fract csl t H T K lower f \<longrightarrow>
      \<not> csl (real_of_int lower + real_of_int j * 0.01 + 0.005) H T K < t)"
proof (induction csl t H T K lower f rule: scan_fract.induct)
  case (1 csl sec_level H T K lower fract)
  show ?case
  proof (cases "fract < 100")
    case False
    with 1(3) show ?thesis by (subst (1 2 3 4 5) scan_fract.simps) simp
  next
    case lt: True
    show ?thesis
    proof (cases "csl (real_of_int lower + real_of_int fract * 0.01 + 0.005) H T K < sec_level")
      case True
      with lt have "scan_fract csl sec_level H T K lower fract = fract"
        by (subst scan_fract.simps) simp
      with True lt show ?thesis by simp
    next
      case False
      with lt have e: "scan_fract csl sec_level H T K lower fract =
          scan_fract csl sec_level H T K lower (fract + 1)"
        by (subst scan_fract.simps) simp
      from 1(1) [OF lt False] 1(2) lt
      have ih: "fract + 1 \<le> scan_fract csl sec_level H T K lower (fract + 1)"
        "scan_fract csl sec_level H T K lower (fract + 1) \<le> 100"
        "scan_fract csl sec_level H T K lower (fract + 1) < 100 \<longrightarrow>
          csl (real_of_int lower + real_of_int (scan_fract csl sec_level H T K lower (fract + 1)) * 0.01 + 0.005) H T K < sec_level"
        "\<forall>j. fract + 1 \<le> j \<and> j < scan_fract csl sec_level H T K lower (fract + 1) \<longrightarrow>
          \<not> csl (real_of_int lower + real_of_int j * 0.01 + 0.005) H T K < sec_level"
        by simp_all
      have "\<not> csl (real_of_int lower + real_of_int j * 0.01 + 0.005) H T K < sec_level"
        if "fract \<le> j" "j < scan_fract csl sec_level H T K lower (fract + 1)" for j
      proof (cases "j = fract")
        case True with False show ?thesis by simp
      next
        case False with that ih(4) show ?thesis by simp
      qed
      with ih show ?thesis unfolding e by simp
    qed
  qed
qed

lemma compute_sigs_at_sec_level_returns:
  assumes "0 \<le> n" "n \<le> 21474835" "csl (real_of_int (n + 1)) H T K < t"
  shows "\<exists>r. compute_sigs_at_sec_level csl t H T K = Some r"
proof -
  from assms(2) have "n < INT_MAX" by (simp add: INT_MAX_def)
  with assms obtain lower where l: "scan_lower csl t H T K 0 = Some lower" "lower \<le> n"
    using scan_lower_returns [of 0 n csl H T K t] by auto
  have "scan_fract csl t H T K lower 0 \<le> 100"
    using scan_fract_result [of 0 csl t H T K lower] by simp
  with l assms(2) have "\<not> 100 * lower + scan_fract csl t H T K lower 0 > INT_MAX"
    by (simp add: INT_MAX_def)
  with l show ?thesis by (simp add: compute_sigs_at_sec_level_def Let_def)
qed




section \<open>A signature count below 5\<close>

lemma too_few_leaves_wrap:
  assumes "num_sig < 5" "0 \<le> h" "h < 4294967291"
  shows "too_few_leaves h num_sig"
proof -
  from assms(1) have "unat num_sig < 5" by (simp add: word_less_nat_alt)
  then have "unat (num_sig - 5) = unat num_sig + 4294967291"
    by (simp add: unat_sub_if')
  moreover have "unat (word_of_int h :: 32 word) = nat h"
    using assms(2,3) by (simp add: unat_eq_nat_uint uint_word_of_int take_bit_int_eq_self)
  ultimately show ?thesis
    using assms(2,3) by (simp add: too_few_leaves_def word_less_nat_alt)
qed

lemma h_loop_skip:
  "num_sig < 5 \<Longrightarrow> 0 \<le> h_merkle \<Longrightarrow> h_merkle < 32 \<Longrightarrow> 0 \<le> d \<Longrightarrow> 0 \<le> h \<Longrightarrow> h \<le> 32 * d \<Longrightarrow>
     h_loop chk heap sec_level num_sig sign_op d_restrict a_restrict hash_size w wd cost_ots
       h_merkle node_tree h d st = Inr st"
proof (induction chk heap sec_level num_sig sign_op d_restrict a_restrict hash_size w wd cost_ots
       h_merkle node_tree h d st rule: h_loop.induct)
  case (1 chk heap sec_level num_sig sign_op d_restrict a_restrict hash_size w wd cost_ots
      h_merkle node_tree h d st)
  note prems = "1.prems"
  show ?case
  proof (cases "h \<le> sec_level + 30 \<and> \<not> 30 \<le> d")
    case False
    then show ?thesis by (subst h_loop.simps) auto
  next
    case True
    then have c: "h \<le> sec_level + 30" "\<not> 30 \<le> d" by simp_all
    from c(2) prems have "h < 4294967291" by simp
    with prems have tf: "too_few_leaves h num_sig" by (intro too_few_leaves_wrap) simp_all
    have next_ok: "0 \<le> d + 1" "0 \<le> h + h_merkle" "h + h_merkle \<le> 32 * (d + 1)"
      using prems by simp_all
    show ?thesis
    proof (cases "d_restrict \<noteq> 0 \<and> d \<noteq> d_restrict")
      case True
      from "1.IH"(1) [OF c True prems(1,2,3) next_ok] c True show ?thesis
        by (subst h_loop.simps) simp
    next
      case False
      from "1.IH"(2) [OF c False tf prems(1,2,3) next_ok] c False tf show ?thesis
        by (subst h_loop.simps) simp
    qed
  qed
qed

lemma hm_loop_skip:
  "num_sig < 5 \<Longrightarrow> 0 \<le> h_merkle \<Longrightarrow>
     hm_loop chk heap sec_level num_sig sign_op d_restrict h_restrict a_restrict hash_size w wd
       cost_ots h_merkle st = Inr st"
proof (induction chk heap sec_level num_sig sign_op d_restrict h_restrict a_restrict hash_size w wd
       cost_ots h_merkle st rule: hm_loop.induct)
  case (1 chk heap sec_level num_sig sign_op d_restrict h_restrict a_restrict hash_size w wd
      cost_ots h_merkle st)
  note prems = "1.prems"
  show ?case
  proof (cases "h_merkle \<le> sec_level + 20 \<and> h_merkle < 32")
    case False
    then show ?thesis by (subst hm_loop.simps) auto
  next
    case c: True
    have nx: "0 \<le> h_merkle + 1" using prems by simp
    show ?thesis
    proof (cases "h_restrict \<noteq> 0 \<and> h_merkle \<noteq> h_restrict")
      case True
      from "1.IH"(1) [OF c True prems(1) nx] c True show ?thesis
        by (subst hm_loop.simps) simp
    next
      case False
      have hl: "h_loop chk heap sec_level num_sig sign_op d_restrict a_restrict hash_size w wd
          cost_ots h_merkle (word_of_int (push_bit (nat h_merkle) 1)) h_merkle 1 st = Inr st"
        using prems c by (intro h_loop_skip) simp_all
      from "1.IH"(2) [OF c False hl prems(1) nx] c False hl show ?thesis
        by (subst hm_loop.simps) simp
    qed
  qed
qed

lemma set_current_list_same: "set_current_list w (current_list w qs) qs = qs"
  by (cases qs) (simp add: set_current_list_def current_list_def)

lemma w_loop_skip_partial:
  "w_loop chk heap sec_level num_sig sign_op d_restrict h_restrict a_restrict hash_size w log_w st
     = Some y \<Longrightarrow> num_sig < 5 \<longrightarrow> y = Inr st"
proof (induction rule: w_loop.raw_induct [rotated 1, consumes 1])
  case (1 w_loop' chk heap sec_level num_sig sign_op d_restrict h_restrict a_restrict hash_size
      w log_w st y)
  show ?case
  proof
    assume ns: "num_sig < 5"
    show "y = Inr st"
    proof (cases "w \<le> 256")
      case False
      with 1(2) show ?thesis by simp
    next
      case True
      define hash_d where "hash_d = (word_of_int sec_level + log_w - 1) div log_w"
      obtain cd where cd: "checksum_loop w ((w - 1) * hash_d) 1 w = Some cd"
        using 1(2) True by (auto simp: Let_def hash_d_def split: option.splits)
      have hm: "hm_loop chk heap sec_level num_sig sign_op d_restrict h_restrict a_restrict
          hash_size w (hash_d + cd) (1 + (hash_d + cd) * w) 2 (fst st, current_list w (snd st))
          = Inr (fst st, current_list w (snd st))"
        using ns by (intro hm_loop_skip) simp_all
      from 1(2) True cd hm
      have "w_loop' chk heap sec_level num_sig sign_op d_restrict h_restrict a_restrict hash_size
          (push_bit 1 w) (log_w + 1) (fst st, set_current_list w (current_list w (snd st)) (snd st))
          = Some y"
        by (simp add: Let_def hash_d_def)
      from 1(1) [OF this] ns show ?thesis by (simp add: set_current_list_same)
    qed
  qed
qed

lemma checksum_loop_returns:
  "unat max_sum \<le> unat prd * unat w ^ j \<Longrightarrow> unat prd * unat w ^ j < 2 ^ 32 \<Longrightarrow> 0 < unat w \<Longrightarrow>
   \<exists>r. checksum_loop w max_sum cd prd = Some r"
proof (induction j arbitrary: prd cd)
  case 0
  then have "\<not> prd < max_sum" by (simp add: word_less_nat_alt)
  then show ?case by (subst checksum_loop.simps) simp
next
  case (Suc j)
  show ?case
  proof (cases "prd < max_sum")
    case False
    then show ?thesis by (subst checksum_loop.simps) simp
  next
    case True
    have "1 \<le> unat w ^ j" using Suc.prems(3) by simp
    then have "unat w * 1 \<le> unat w * unat w ^ j" by (rule mult_le_mono2)
    then have "unat prd * unat w \<le> unat prd * unat w ^ Suc j" by simp
    then have "unat prd * unat w < 2 ^ 32" using Suc.prems(2) by (rule le_less_trans)
    then have e: "unat (prd * w) = unat prd * unat w"
      by (simp add: unat_word_ariths)
    have "\<exists>r. checksum_loop w max_sum (cd + 1) (prd * w) = Some r"
      using Suc.prems by (intro Suc.IH) (simp_all add: e mult.assoc)
    with True show ?thesis by (subst checksum_loop.simps) simp
  qed
qed

lemma unat_word_of_int_small:
  "0 \<le> x \<Longrightarrow> x < 2 ^ 32 \<Longrightarrow> unat (word_of_int x :: 32 word) = nat x"
  by (simp add: unat_eq_nat_uint uint_word_of_int take_bit_int_eq_self)

lemma max_sum_small:
  assumes "0 \<le> sec_level" "sec_level \<le> 65536" "unat w \<le> 256" "0 < unat w"
    "unat log_w \<le> 8" "0 < unat log_w"
  shows "unat ((w - 1) * ((word_of_int sec_level + log_w - 1) div log_w) :: 32 word) \<le> 2 ^ 24"
proof -
  have s: "unat (word_of_int sec_level :: 32 word) = nat sec_level"
    using assms(1,2) by (intro unat_word_of_int_small) simp_all
  have y: "unat (word_of_int sec_level + log_w :: 32 word) = nat sec_level + unat log_w"
    using assms(1,2,5) s by (simp add: unat_word_ariths)
  then have "word_of_int sec_level + log_w \<noteq> (0 :: 32 word)"
    using assms(6) by (metis add_is_0 less_numeral_extra(3) unat_0)
  then have "unat (word_of_int sec_level + log_w - 1 :: 32 word) = nat sec_level + unat log_w - 1"
    using y by (simp add: unat_minus_one)
  then have "unat (word_of_int sec_level + log_w - 1 :: 32 word) \<le> 65544"
    using assms(1,2,5) by simp
  moreover have "unat ((word_of_int sec_level + log_w - 1) div log_w :: 32 word)
      \<le> unat (word_of_int sec_level + log_w - 1 :: 32 word)"
    by (simp add: unat_div div_le_dividend)
  ultimately have h: "unat ((word_of_int sec_level + log_w - 1) div log_w :: 32 word) \<le> 65544"
    by simp
  have "w \<noteq> 0" using assms(4) by auto
  then have "unat (w - 1) = unat w - 1" by (simp add: unat_minus_one)
  then have "unat (w - 1) \<le> 255" using assms(3) by simp
  with h have "unat (w - 1) * unat ((word_of_int sec_level + log_w - 1) div log_w :: 32 word)
      \<le> 255 * 65544"
    by (intro mult_le_mono) simp_all
  moreover have "unat ((w - 1) * ((word_of_int sec_level + log_w - 1) div log_w) :: 32 word)
      \<le> unat (w - 1) * unat ((word_of_int sec_level + log_w - 1) div log_w :: 32 word)"
    by (simp add: unat_word_ariths)
  ultimately show ?thesis by simp
qed

lemma w_loop_step_skip:
  assumes "num_sig < 5" "w \<le> 256" "0 \<le> sec_level" "sec_level \<le> 65536" "unat log_w \<le> 8"
    "0 < unat w" "2 ^ 24 \<le> unat w * unat w ^ j" "unat w * unat w ^ j < 2 ^ 32" "0 < unat log_w"
  shows "w_loop chk heap sec_level num_sig sign_op d_restrict h_restrict a_restrict hash_size
      w log_w st =
    w_loop chk heap sec_level num_sig sign_op d_restrict h_restrict a_restrict hash_size
      (push_bit 1 w) (log_w + 1) st"
proof -
  define hash_d where "hash_d = (word_of_int sec_level + log_w - 1) div log_w"
  from assms(2) have "unat w \<le> 256" by (simp add: word_le_nat_alt)
  with assms have "unat ((w - 1) * hash_d) \<le> 2 ^ 24"
    unfolding hash_d_def by (intro max_sum_small) simp_all
  with assms(7) have "unat ((w - 1) * hash_d) \<le> unat w * unat w ^ j" by simp
  then obtain cd where cd: "checksum_loop w ((w - 1) * hash_d) 1 w = Some cd"
    using checksum_loop_returns [OF _ assms(8) assms(6)] by blast
  have hm: "hm_loop chk heap sec_level num_sig sign_op d_restrict h_restrict a_restrict
      hash_size w (hash_d + cd) (1 + (hash_d + cd) * w) 2 (fst st, current_list w (snd st))
      = Inr (fst st, current_list w (snd st))"
    using assms(1) by (intro hm_loop_skip) simp_all
  show ?thesis
    using assms(2) cd hm
    by (subst w_loop.simps) (simp add: Let_def hash_d_def [symmetric] set_current_list_same)
qed

lemma search_queues_skip:
  assumes "num_sig < 5" "0 \<le> sec_level" "sec_level \<le> 65536"
  shows "search_queues chk heap sec_level num_sig sign_op d_restrict h_restrict a_restrict
    = Some (Inr (0, [], [], []))"
proof -
  note st = w_loop_step_skip [OF assms(1) _ assms(2,3)]
  have "w_loop chk heap sec_level num_sig sign_op d_restrict h_restrict a_restrict hash_size
      4 2 s = Some (Inr s)" for hash_size s
    apply (subst st [where j = 11], simp_all)
    apply (subst st [where j = 7], simp_all)
    apply (subst st [where j = 5], simp_all)
    apply (subst st [where j = 4], simp_all)
    apply (subst st [where j = 3], simp_all)
    apply (subst st [where j = 3], simp_all)
    apply (subst st [where j = 2], simp_all)
    apply (subst w_loop.simps, simp)
    done
  then show ?thesis by (simp add: search_queues_def)
qed

lemma my_sort_Nil: "my_sort [] = []"
  using my_sort_mset [of "[]"] by simp

lemma select_loop_empty: "select_loop csl test_sec_level max_s ([], [], []) lv pl = Some pl"
  by (subst select_loop.simps) simp

lemma too_few_leaves_exact:
  assumes "5 \<le> ns" "0 \<le> h" "h < 2 ^ 32"
  shows "too_few_leaves h ns \<longleftrightarrow> h < uint ns - 5"
proof -
  have a: "unat (word_of_int h :: 32 word) = nat h"
    using assms(2,3) by (intro unat_word_of_int_small) simp_all
  have b: "unat (ns - 5) = unat ns - 5"
    using assms(1) by (simp add: unat_sub)
  from assms(1) have c: "5 \<le> unat ns" by (simp add: word_le_nat_alt)
  have "too_few_leaves h ns \<longleftrightarrow> nat h < unat ns - 5"
    by (simp add: too_few_leaves_def word_less_nat_alt a b)
  also have "\<dots> \<longleftrightarrow> h < int (unat ns) - 5"
    using assms(2) c by linarith
  also have "int (unat ns) = uint ns" by simp
  finally show ?thesis .
qed

text \<open>
  Claim C10. When \<^verbatim>\<open>num_sig\<close> is between 1 and 4, the subtraction \<^verbatim>\<open>num_sig - 5\<close> wraps
  around in \<^verbatim>\<open>unsigned\<close> arithmetic, the test \<^verbatim>\<open>h < num_sig - 5\<close> holds for every
  hypertree height, and \<^verbatim>\<open>do_search\<close> admits nothing: whenever the enumeration comes
  back, the three queues are empty and the printed list is empty, and for a security
  level from 0 to 65536 it does come back (the checksum loop ends). For
  \<^verbatim>\<open>num_sig >= 5\<close> the test is the comparison of the integers \<open>h\<close> and \<open>num_sig - 5\<close>.
\<close>

theorem num_sig_below_5_admits_nothing:
  assumes "1 \<le> num_sig" "num_sig \<le> 4"
  shows "(\<forall>y. search_queues chk heap sec_level num_sig sign_op d_restrict h_restrict a_restrict
            = Some y \<longrightarrow> y = Inr (0, [], [], [])) \<and>
    (\<forall>y. do_search chk csl heap sec_level num_sig test_sec_level sign_op max_s
            d_restrict h_restrict a_restrict = Some y \<longrightarrow> y = Inr []) \<and>
    (0 \<le> sec_level \<and> sec_level \<le> 65536 \<longrightarrow>
       do_search chk csl heap sec_level num_sig test_sec_level sign_op max_s
         d_restrict h_restrict a_restrict = Some (Inr [])) \<and>
    (\<forall>h. 0 \<le> h \<and> h < 2 ^ 31 \<longrightarrow> too_few_leaves h num_sig) \<and>
    (\<forall>ns h. 5 \<le> ns \<and> 0 \<le> h \<and> h < 2 ^ 31 \<longrightarrow> (too_few_leaves h ns \<longleftrightarrow> h < uint ns - 5))"
proof -
  from assms(2) have ns: "num_sig < 5"
    by (simp add: word_le_nat_alt word_less_nat_alt)
  have q: "y = Inr (0, [], [], [])"
    if "search_queues chk heap sec_level num_sig sign_op d_restrict h_restrict a_restrict = Some y"
    for y
    using w_loop_skip_partial [OF that [unfolded search_queues_def]] ns by simp
  have d: "y = Inr []"
    if "do_search chk csl heap sec_level num_sig test_sec_level sign_op max_s
            d_restrict h_restrict a_restrict = Some y" for y
  proof (cases "search_queues chk heap sec_level num_sig sign_op d_restrict h_restrict a_restrict")
    case None
    with that show ?thesis by (simp add: do_search_def)
  next
    case (Some z)
    with q have "z = Inr (0, [], [], [])" by simp
    with Some that show ?thesis
      by (simp add: do_search_def my_sort_Nil select_loop_empty)
  qed
  have r: "do_search chk csl heap sec_level num_sig test_sec_level sign_op max_s
         d_restrict h_restrict a_restrict = Some (Inr [])"
    if "0 \<le> sec_level \<and> sec_level \<le> 65536"
    using search_queues_skip [OF ns, of sec_level chk heap sign_op d_restrict h_restrict a_restrict]
      that
    by (simp add: do_search_def my_sort_Nil select_loop_empty)
  have t: "too_few_leaves h num_sig" if "0 \<le> h \<and> h < 2 ^ 31" for h
    using that ns by (intro too_few_leaves_wrap) simp_all
  have e: "too_few_leaves h n \<longleftrightarrow> h < uint n - 5" if "5 \<le> n \<and> 0 \<le> h \<and> h < 2 ^ 31" for n h
    using that by (intro too_few_leaves_exact) simp_all
  from q d r t e show ?thesis by blast
qed

text \<open>
  The theorem at \<^verbatim>\<open>num_sig = 4\<close> with security level 128, and the test itself at height
  63 for \<^verbatim>\<open>num_sig = 4\<close> and \<^verbatim>\<open>num_sig = 20\<close>.
\<close>

theorem num_sig_below_5_admits_nothing_witness:
  "(1 :: 32 word) \<le> 4 \<and> (4 :: 32 word) \<le> 4 \<and>
   do_search low_overuse_check low_overuse_level 1000 128 4 112 100000 30 0 0 0 = Some (Inr []) \<and>
   too_few_leaves 63 4 \<and> \<not> too_few_leaves 63 20"
proof -
  have a: "(1 :: 32 word) \<le> 4" "(4 :: 32 word) \<le> 4" by simp_all
  note T = num_sig_below_5_admits_nothing [OF a, where sec_level = 128
      and chk = low_overuse_check and csl = low_overuse_level and heap = 1000
      and test_sec_level = 112 and sign_op = 100000 and max_s = 30 and d_restrict = 0
      and h_restrict = 0 and a_restrict = 0]
  from T have t3: "(0::int) \<le> 128 \<and> (128::int) \<le> 65536 \<longrightarrow>
      do_search low_overuse_check low_overuse_level 1000 128 4 112 100000 30 0 0 0
      = Some (Inr [])" by (elim conjE)
  from T have t4: "\<forall>h. 0 \<le> h \<and> h < 2 ^ 31 \<longrightarrow> too_few_leaves h 4" by (elim conjE)
  from T have t5: "\<forall>ns h. 5 \<le> ns \<and> 0 \<le> h \<and> h < 2 ^ 31 \<longrightarrow>
      (too_few_leaves h ns \<longleftrightarrow> h < uint ns - 5)" by (elim conjE)
  from t3 have r1: "do_search low_overuse_check low_overuse_level 1000 128 4 112 100000 30 0 0 0
      = Some (Inr [])" by simp
  have "(0::int) \<le> 63 \<and> (63::int) < 2 ^ 31" by simp
  with t4 have r2: "too_few_leaves 63 4" by blast
  have "(5 :: 32 word) \<le> 20 \<and> (0::int) \<le> 63 \<and> (63::int) < 2 ^ 31" by simp
  with t5 have "too_few_leaves 63 20 \<longleftrightarrow> (63 :: int) < uint (20 :: 32 word) - 5" by blast
  then have r3: "\<not> too_few_leaves 63 20" by simp
  from a r1 r2 r3 show ?thesis by blast
qed

section \<open>Invariants of the selection loop\<close>

lemma pick_winner_queue:
  assumes "fst qs \<noteq> [] \<or> fst (snd qs) \<noteq> [] \<or> snd (snd qs) \<noteq> []"
  shows "snd (pick_winner qs) < 3 \<and> fst (pick_winner qs) = queue_of (snd (pick_winner qs)) qs \<and>
    fst (pick_winner qs) \<noteq> []"
  using assms by (cases qs) (auto simp: pick_winner_def queue_of_def Let_def)

lemma pick_winner_least:
  assumes "fst qs \<noteq> [] \<or> fst (snd qs) \<noteq> [] \<or> snd (snd qs) \<noteq> []" "queue_of c qs \<noteq> []"
  shows "sig_size (hd (fst (pick_winner qs))) \<le> sig_size (hd (queue_of c qs))"
  using assms by (cases qs) (auto simp: pick_winner_def queue_of_def Let_def split: if_splits)

lemma pick_winner_strict:
  assumes "c < snd (pick_winner qs)" "queue_of c qs \<noteq> []"
  shows "sig_size (hd (fst (pick_winner qs))) < sig_size (hd (queue_of c qs))"
  using assms by (cases qs) (auto simp: pick_winner_def queue_of_def Let_def split: if_splits)

lemma pull_winner_queue:
  "winner < 3 \<Longrightarrow> queue_of c (pull_winner winner (queue_of winner qs) qs) =
     (if c < 3 \<and> c = winner \<or> (2 \<le> c \<and> winner = 2) then tl (queue_of winner qs) else queue_of c qs)"
  by (cases qs) (auto simp: pull_winner_def queue_of_def)

lemma select_loop_invariant:
  assumes "select_loop csl test_sec_level max_s qs lv pl = Some res"
    and "I qs lv pl"
    and discard: "\<And>qs lv pl. I qs lv pl \<Longrightarrow>
           fst qs \<noteq> [] \<or> fst (snd qs) \<noteq> [] \<or> snd (snd qs) \<noteq> [] \<Longrightarrow>
           I (pull_winner (snd (pick_winner qs)) (fst (pick_winner qs)) qs) lv pl"
    and accept: "\<And>qs lv pl overuse. I qs lv pl \<Longrightarrow>
           fst qs \<noteq> [] \<or> fst (snd qs) \<noteq> [] \<or> snd (snd qs) \<noteq> [] \<Longrightarrow>
           snd lv ! snd (pick_winner qs) = 0 \<Longrightarrow>
           overuse_score csl test_sec_level (hd (fst (pick_winner qs))) = Some overuse \<Longrightarrow>
           fst lv ! snd (pick_winner qs) < overuse \<Longrightarrow>
           I (pull_winner (snd (pick_winner qs)) (fst (pick_winner qs)) qs)
             (update_levels (snd (pick_winner qs)) overuse
                (if max_s \<noteq> 0 \<and> overuse sdiv 100 \<ge> max_s then 1 else 0) lv)
             (pl @ [hd (fst (pick_winner qs))])"
  shows "\<exists>qs' lv'. I qs' lv' res"
  using assms
proof (induction csl test_sec_level max_s qs lv pl rule: select_loop.induct)
  case (1 csl test_sec_level max_s qs lv print_list)
  note res = "1.prems"(1) and inv = "1.prems"(2) and discard = "1.prems"(3)
    and accept = "1.prems"(4)
  show ?case
  proof (cases "fst qs \<noteq> [] \<or> fst (snd qs) \<noteq> [] \<or> snd (snd qs) \<noteq> []")
    case False
    with res have "res = print_list" by (subst (asm) select_loop.simps) simp
    with inv show ?thesis by blast
  next
    case ne: True
    define p where "p = fst (pick_winner qs)"
    define winner where "winner = snd (pick_winner qs)"
    define qs' where "qs' = pull_winner winner p qs"
    have inv': "I qs' lv print_list"
      using discard [OF inv ne] by (simp add: qs'_def p_def winner_def)
    show ?thesis
    proof (cases "snd lv ! winner \<noteq> 0")
      case True
      with res ne have "select_loop csl test_sec_level max_s qs' lv print_list = Some res"
        by (subst (asm) select_loop.simps) (simp add: Let_def p_def winner_def qs'_def)
      from "1.IH"(1) [OF ne p_def winner_def qs'_def True this inv' discard accept]
      show ?thesis .
    next
      case nc: False
      show ?thesis
      proof (cases "compute_sigs_at_sec_level csl (real (unat test_sec_level))
                      (uint (p_h (hd p))) (uint (p_a (hd p))) (uint (p_k (hd p)))")
        case None
        with res ne nc show ?thesis
          by (subst (asm) select_loop.simps) (simp add: Let_def p_def winner_def qs'_def)
      next
        case (Some overuse)
        show ?thesis
        proof (cases "overuse \<le> fst lv ! winner")
          case True
          with res ne nc Some
          have "select_loop csl test_sec_level max_s qs' lv print_list = Some res"
            by (subst (asm) select_loop.simps) (simp add: Let_def p_def winner_def qs'_def)
          from "1.IH"(2) [OF ne p_def winner_def qs'_def nc Some True this inv' discard accept]
          show ?thesis .
        next
          case False
          define do_cutoff :: int
            where "do_cutoff = (if max_s \<noteq> 0 \<and> overuse sdiv 100 \<ge> max_s then 1 else 0)"
          define lv' where "lv' = update_levels winner overuse do_cutoff lv"
          have a1: "snd lv ! snd (pick_winner qs) = 0" using nc by (simp add: winner_def)
          have a2: "overuse_score csl test_sec_level (hd (fst (pick_winner qs))) = Some overuse"
            using Some by (simp add: overuse_score_def p_def)
          have a3: "fst lv ! snd (pick_winner qs) < overuse" using False by (simp add: winner_def)
          have inv2: "I qs' lv' (print_list @ [hd p])"
            using accept [OF inv ne a1 a2 a3]
            by (simp only: qs'_def p_def winner_def lv'_def do_cutoff_def)
          show ?thesis
          proof (cases "snd lv' ! 0 \<noteq> 0")
            case True
            with res ne nc Some False have "res = print_list @ [hd p]"
              by (subst (asm) select_loop.simps)
                (simp add: Let_def p_def winner_def qs'_def lv'_def do_cutoff_def)
            with inv2 show ?thesis by blast
          next
            case nb: False
            with res ne nc Some False
            have "select_loop csl test_sec_level max_s qs' lv' (print_list @ [hd p]) = Some res"
              by (subst (asm) select_loop.simps)
                (simp add: Let_def p_def winner_def qs'_def lv'_def do_cutoff_def)
            from "1.IH"(3) [OF ne p_def winner_def qs'_def nc Some False do_cutoff_def lv'_def nb
                this inv2 discard accept]
            show ?thesis .
          qed
        qed
      qed
    qed
  qed
qed

section \<open>What the enumeration puts on the queues\<close>

lemma unat_succ_small: "unat (x :: 32 word) < 1000 \<Longrightarrow> unat (x + 1) = unat x + 1"
  by (simp add: unat_word_ariths)

lemma k_loop_elems:
  "k_loop chk heap sec_level num_sig sign_op hash_size w wd h_merkle h d cost_hypertree
      a cost_fors_tree k st = Inr st' \<Longrightarrow>
   \<forall>p \<in> set (snd st). P p \<Longrightarrow>
   k = 1 \<or> \<not> fl (cost_hypertree + fl (uint (1 * cost_fors_tree))) > fl (uint sign_op) \<Longrightarrow>
   \<forall>k'. unat k \<le> unat k' \<and> k' < MAX_K \<and>
      \<not> fl (cost_hypertree + fl (uint (k' * cost_fors_tree))) > fl (uint sign_op) \<and>
      \<not> fl (cost_hypertree + fl (uint (1 * cost_fors_tree))) > fl (uint sign_op) \<longrightarrow>
      P (new_parameter_set hash_size w wd h_merkle h d cost_hypertree a cost_fors_tree k') \<Longrightarrow>
   \<forall>p \<in> set (snd st'). P p"
proof (induction chk heap sec_level num_sig sign_op hash_size w wd h_merkle h d cost_hypertree
      a cost_fors_tree k st rule: k_loop.induct)
  case (1 chk heap sec_level num_sig sign_op hash_size w wd h_merkle h d cost_hypertree
      a cost_fors_tree k st)
  note res = "1.prems"(1) and old = "1.prems"(2) and first = "1.prems"(3) and new = "1.prems"(4)
  show ?case
  proof (cases "k < MAX_K")
    case False
    with res have "st' = st" by (subst (asm) k_loop.simps) simp
    with old show ?thesis by simp
  next
    case lt: True
    then have ksmall: "unat k < 1000" by (simp add: MAX_K_def word_less_nat_alt)
    show ?thesis
    proof (cases "fl (cost_hypertree + fl (uint (k * cost_fors_tree))) > fl (uint sign_op)")
      case True
      with lt res have "st' = st" by (subst (asm) k_loop.simps) simp
      with old show ?thesis by simp
    next
      case budget: False
      have first': "k + 1 = 1 \<or>
          \<not> fl (cost_hypertree + fl (uint (1 * cost_fors_tree))) > fl (uint sign_op)"
        using first budget by auto
      have new': "\<forall>k'. unat (k + 1) \<le> unat k' \<and> k' < MAX_K \<and>
          \<not> fl (cost_hypertree + fl (uint (k' * cost_fors_tree))) > fl (uint sign_op) \<and>
          \<not> fl (cost_hypertree + fl (uint (1 * cost_fors_tree))) > fl (uint sign_op) \<longrightarrow>
          P (new_parameter_set hash_size w wd h_merkle h d cost_hypertree a cost_fors_tree k')"
        using new unat_succ_small [OF ksmall] by auto
      show ?thesis
      proof (cases "chk (real (unat num_sig)) h (sint a) (sint k) (real_of_int sec_level)")
        case False
        with lt budget res
        have r: "k_loop chk heap sec_level num_sig sign_op hash_size w wd h_merkle h d
            cost_hypertree a cost_fors_tree (k + 1) st = Inr st'"
          by (subst (asm) k_loop.simps) simp
        from "1.IH"(1) [OF lt budget _ r old first' new'] False show ?thesis by simp
      next
        case pass: True
        show ?thesis
        proof (cases "fst st \<ge> heap")
          case True
          with lt budget pass res show ?thesis by (subst (asm) k_loop.simps) simp
        next
          case False
          let ?st = "(fst st + 1,
              new_parameter_set hash_size w wd h_merkle h d cost_hypertree a cost_fors_tree k
                # snd st)"
          from lt budget pass False res
          have r: "k_loop chk heap sec_level num_sig sign_op hash_size w wd h_merkle h d
              cost_hypertree a cost_fors_tree (k + 1) ?st = Inr st'"
            by (subst (asm) k_loop.simps) simp
          have "P (new_parameter_set hash_size w wd h_merkle h d cost_hypertree a
              cost_fors_tree k)"
            using new lt budget first by auto
          with old have old': "\<forall>p \<in> set (snd ?st). P p" by simp
          from "1.IH"(2) [OF lt budget _ False r old' first' new'] pass show ?thesis by simp
        qed
      qed
    qed
  qed
qed

lemma a_loop_elems:
  "a_loop chk heap sec_level num_sig sign_op a_restrict hash_size w wd h_merkle h d
      cost_hypertree a st = Inr st' \<Longrightarrow>
   \<forall>p \<in> set (snd st). P p \<Longrightarrow>
   \<forall>a' k'. unat a \<le> unat a' \<and> a' < 30 \<and> 1 \<le> unat k' \<and> k' < MAX_K \<and>
      \<not> fl (cost_hypertree + fl (uint (k' * word_of_int (3 * push_bit (unat a') 1 - 1))))
          > fl (uint sign_op) \<and>
      \<not> fl (cost_hypertree + fl (uint (1 * (word_of_int (3 * push_bit (unat a') 1 - 1) :: 32 word))))
          > fl (uint sign_op) \<longrightarrow>
      P (new_parameter_set hash_size w wd h_merkle h d cost_hypertree a'
           (word_of_int (3 * push_bit (unat a') 1 - 1)) k') \<Longrightarrow>
   \<forall>p \<in> set (snd st'). P p"
proof (induction chk heap sec_level num_sig sign_op a_restrict hash_size w wd h_merkle h d
      cost_hypertree a st rule: a_loop.induct)
  case (1 chk heap sec_level num_sig sign_op a_restrict hash_size w wd h_merkle h d
      cost_hypertree a st)
  note res = "1.prems"(1) and old = "1.prems"(2) and new = "1.prems"(3)
  show ?case
  proof (cases "a < 30")
    case False
    with res have "st' = st" by (subst (asm) a_loop.simps) simp
    with old show ?thesis by simp
  next
    case lt: True
    then have "unat a < 1000" by (simp add: word_less_nat_alt)
    then have suc: "unat (a + 1) = unat a + 1" by (rule unat_succ_small)
    have new': "\<forall>a' k'. unat (a + 1) \<le> unat a' \<and> a' < 30 \<and> 1 \<le> unat k' \<and> k' < MAX_K \<and>
      \<not> fl (cost_hypertree + fl (uint (k' * word_of_int (3 * push_bit (unat a') 1 - 1))))
          > fl (uint sign_op) \<and>
      \<not> fl (cost_hypertree + fl (uint (1 * (word_of_int (3 * push_bit (unat a') 1 - 1) :: 32 word))))
          > fl (uint sign_op) \<longrightarrow>
      P (new_parameter_set hash_size w wd h_merkle h d cost_hypertree a'
           (word_of_int (3 * push_bit (unat a') 1 - 1)) k')"
      using new suc by auto
    show ?thesis
    proof (cases "a_restrict \<noteq> 0 \<and> a \<noteq> word_of_int a_restrict")
      case True
      with lt res have r: "a_loop chk heap sec_level num_sig sign_op a_restrict hash_size w wd
          h_merkle h d cost_hypertree (a + 1) st = Inr st'"
        by (subst (asm) a_loop.simps) simp
      from "1.IH"(1) [OF lt True r old new'] show ?thesis .
    next
      case False
      from lt False res obtain st1 where
        k: "k_loop chk heap sec_level num_sig sign_op hash_size w wd h_merkle h d
              cost_hypertree a (word_of_int (3 * push_bit (unat a) 1 - 1)) 1 st = Inr st1"
        and r: "a_loop chk heap sec_level num_sig sign_op a_restrict hash_size w wd
          h_merkle h d cost_hypertree (a + 1) st1 = Inr st'"
        by (subst (asm) a_loop.simps) (auto split: sum.splits)
      have "\<forall>p \<in> set (snd st1). P p"
      proof (rule k_loop_elems [OF k old])
        show "(1 :: 32 word) = 1 \<or> \<not> fl (uint sign_op)
           < fl (cost_hypertree + fl (uint (1 * (word_of_int (3 * push_bit (unat a) 1 - 1) :: 32 word))))"
          by simp
        show "\<forall>k'. unat (1 :: 32 word) \<le> unat k' \<and> k' < MAX_K \<and>
          \<not> fl (uint sign_op) < fl (cost_hypertree + fl (uint (k' * word_of_int (3 * push_bit (unat a) 1 - 1)))) \<and>
          \<not> fl (uint sign_op) < fl (cost_hypertree + fl (uint (1 * (word_of_int (3 * push_bit (unat a) 1 - 1) :: 32 word)))) \<longrightarrow>
          P (new_parameter_set hash_size w wd h_merkle h d cost_hypertree a
              (word_of_int (3 * push_bit (unat a) 1 - 1)) k')"
          using new lt by auto
      qed
      from "1.IH"(2) [OF lt False k r this new'] show ?thesis .
    qed
  qed
qed

lemma h_loop_elems:
  "h_loop chk heap sec_level num_sig sign_op d_restrict a_restrict hash_size w wd cost_ots
      h_merkle node_tree h d st = Inr st' \<Longrightarrow>
   \<forall>p \<in> set (snd st). P p \<Longrightarrow>
   \<forall>d' a' k'. d \<le> d' \<and> d' < 30 \<and> h + (d' - d) * h_merkle \<le> sec_level + 30 \<and>
      \<not> too_few_leaves (h + (d' - d) * h_merkle) num_sig \<and>
      \<not> hypertree_cost d' cost_ots node_tree \<ge> fl (uint sign_op) \<and>
      1 \<le> unat a' \<and> a' < 30 \<and> 1 \<le> unat k' \<and> k' < MAX_K \<and>
      \<not> fl (hypertree_cost d' cost_ots node_tree +
              fl (uint (k' * word_of_int (3 * push_bit (unat a') 1 - 1)))) > fl (uint sign_op) \<and>
      \<not> fl (hypertree_cost d' cost_ots node_tree +
              fl (uint (1 * (word_of_int (3 * push_bit (unat a') 1 - 1) :: 32 word))))
          > fl (uint sign_op) \<longrightarrow>
      P (new_parameter_set hash_size w wd h_merkle (h + (d' - d) * h_merkle) d'
           (hypertree_cost d' cost_ots node_tree) a'
           (word_of_int (3 * push_bit (unat a') 1 - 1)) k') \<Longrightarrow>
   \<forall>p \<in> set (snd st'). P p"
proof (induction chk heap sec_level num_sig sign_op d_restrict a_restrict hash_size w wd cost_ots
      h_merkle node_tree h d st rule: h_loop.induct)
  case (1 chk heap sec_level num_sig sign_op d_restrict a_restrict hash_size w wd cost_ots
      h_merkle node_tree h d st)
  note res = "1.prems"(1) and old = "1.prems"(2) and new = "1.prems"(3)
  show ?case
  proof (cases "h \<le> sec_level + 30 \<and> \<not> d \<ge> 30")
    case False
    with res have "st' = st" by (subst (asm) h_loop.simps) (auto split: if_splits)
    with old show ?thesis by simp
  next
    case True
    then have c: "h \<le> sec_level + 30" "\<not> d \<ge> 30" by simp_all
    have shift: "h + h_merkle + (d' - (d + 1)) * h_merkle = h + (d' - d) * h_merkle" for d'
      by (simp add: algebra_simps)
    have new': "\<forall>d' a' k'. d + 1 \<le> d' \<and> d' < 30 \<and>
      h + h_merkle + (d' - (d + 1)) * h_merkle \<le> sec_level + 30 \<and>
      \<not> too_few_leaves (h + h_merkle + (d' - (d + 1)) * h_merkle) num_sig \<and>
      \<not> hypertree_cost d' cost_ots node_tree \<ge> fl (uint sign_op) \<and>
      1 \<le> unat a' \<and> a' < 30 \<and> 1 \<le> unat k' \<and> k' < MAX_K \<and>
      \<not> fl (hypertree_cost d' cost_ots node_tree +
              fl (uint (k' * word_of_int (3 * push_bit (unat a') 1 - 1)))) > fl (uint sign_op) \<and>
      \<not> fl (hypertree_cost d' cost_ots node_tree +
              fl (uint (1 * (word_of_int (3 * push_bit (unat a') 1 - 1) :: 32 word))))
          > fl (uint sign_op) \<longrightarrow>
      P (new_parameter_set hash_size w wd h_merkle (h + h_merkle + (d' - (d + 1)) * h_merkle) d'
           (hypertree_cost d' cost_ots node_tree) a'
           (word_of_int (3 * push_bit (unat a') 1 - 1)) k')"
      unfolding shift using new by auto
    show ?thesis
    proof (cases "d_restrict \<noteq> 0 \<and> d \<noteq> d_restrict")
      case True
      with c res have r: "h_loop chk heap sec_level num_sig sign_op d_restrict a_restrict
          hash_size w wd cost_ots h_merkle node_tree (h + h_merkle) (d + 1) st = Inr st'"
        by (subst (asm) h_loop.simps) (auto split: if_splits)
      from "1.IH"(1) [OF c True r old new'] show ?thesis .
    next
      case nr: False
      show ?thesis
      proof (cases "too_few_leaves h num_sig")
        case True
        with c nr res have r: "h_loop chk heap sec_level num_sig sign_op d_restrict a_restrict
            hash_size w wd cost_ots h_merkle node_tree (h + h_merkle) (d + 1) st = Inr st'"
          by (subst (asm) h_loop.simps) (auto split: if_splits)
        from "1.IH"(2) [OF c nr True r old new'] show ?thesis .
      next
        case enough: False
        show ?thesis
        proof (cases "hypertree_cost d cost_ots node_tree \<ge> fl (uint sign_op)")
          case True
          with c nr enough res have "st' = st" by (subst (asm) h_loop.simps) (auto split: if_splits)
          with old show ?thesis by simp
        next
          case cheap: False
          from c nr enough cheap res obtain st1 where
            a: "a_loop chk heap sec_level num_sig sign_op a_restrict hash_size w wd h_merkle h d
                   (hypertree_cost d cost_ots node_tree) 1 st = Inr st1"
            and r: "h_loop chk heap sec_level num_sig sign_op d_restrict a_restrict
              hash_size w wd cost_ots h_merkle node_tree (h + h_merkle) (d + 1) st1 = Inr st'"
            by (subst (asm) h_loop.simps) (auto split: sum.splits if_splits)
          have "\<forall>p \<in> set (snd st1). P p"
          proof (rule a_loop_elems [OF a old], intro allI impI)
            fix a' k' :: "32 word"
            assume h: "unat (1 :: 32 word) \<le> unat a' \<and> a' < 30 \<and> 1 \<le> unat k' \<and> k' < MAX_K \<and>
              \<not> fl (uint sign_op) < fl (hypertree_cost d cost_ots node_tree +
                  fl (uint (k' * word_of_int (3 * push_bit (unat a') 1 - 1)))) \<and>
              \<not> fl (uint sign_op) < fl (hypertree_cost d cost_ots node_tree +
                  fl (uint (1 * (word_of_int (3 * push_bit (unat a') 1 - 1) :: 32 word))))"
            note inst = new [THEN spec, THEN spec, THEN spec, of d a' k']
            from inst h c enough cheap
            show "P (new_parameter_set hash_size w wd h_merkle h d
               (hypertree_cost d cost_ots node_tree) a'
               (word_of_int (3 * push_bit (unat a') 1 - 1)) k')"
              by simp
          qed
          from "1.IH"(3) [OF c nr enough cheap a r this new'] show ?thesis .
        qed
      qed
    qed
  qed
qed

lemma h_loop_elems_tests:
  assumes "h_loop chk heap sec_level num_sig sign_op d_restrict a_restrict hash_size w wd cost_ots
      h_merkle node_tree h d st = Inr st'"
    and "\<forall>p \<in> set (snd st). P p"
    and "\<And>d' a' k'. d \<le> d' \<Longrightarrow>
      passes_tests sec_level num_sig sign_op cost_ots node_tree (h + (d' - d) * h_merkle) d' a' k' \<Longrightarrow>
      P (new_parameter_set hash_size w wd h_merkle (h + (d' - d) * h_merkle) d'
           (hypertree_cost d' cost_ots node_tree) a'
           (word_of_int (3 * push_bit (unat a') 1 - 1)) k')"
  shows "\<forall>p \<in> set (snd st'). P p"
proof (rule h_loop_elems [OF assms(1,2)], intro allI impI)
  fix d' :: int and a' k' :: "32 word"
  assume a: "d \<le> d' \<and> d' < 30 \<and> h + (d' - d) * h_merkle \<le> sec_level + 30 \<and>
      \<not> too_few_leaves (h + (d' - d) * h_merkle) num_sig \<and>
      \<not> hypertree_cost d' cost_ots node_tree \<ge> fl (uint sign_op) \<and>
      1 \<le> unat a' \<and> a' < 30 \<and> 1 \<le> unat k' \<and> k' < MAX_K \<and>
      \<not> fl (hypertree_cost d' cost_ots node_tree +
              fl (uint (k' * word_of_int (3 * push_bit (unat a') 1 - 1)))) > fl (uint sign_op) \<and>
      \<not> fl (hypertree_cost d' cost_ots node_tree +
              fl (uint (1 * (word_of_int (3 * push_bit (unat a') 1 - 1) :: 32 word))))
          > fl (uint sign_op)"
  then have "passes_tests sec_level num_sig sign_op cost_ots node_tree
      (h + (d' - d) * h_merkle) d' a' k'"
    unfolding passes_tests_def by blast
  with a show "P (new_parameter_set hash_size w wd h_merkle (h + (d' - d) * h_merkle) d'
           (hypertree_cost d' cost_ots node_tree) a'
           (word_of_int (3 * push_bit (unat a') 1 - 1)) k')"
    by (intro assms(3)) simp_all
qed

lemma hm_loop_elems:
  "hm_loop chk heap sec_level num_sig sign_op d_restrict h_restrict a_restrict hash_size w wd
      cost_ots h_merkle st = Inr st' \<Longrightarrow>
   \<forall>p \<in> set (snd st). P p \<Longrightarrow>
   \<forall>hm' d' a' k'. h_merkle \<le> hm' \<and> hm' < 32 \<and> hm' \<le> sec_level + 20 \<and> 1 \<le> d' \<and>
      passes_tests sec_level num_sig sign_op cost_ots (word_of_int (push_bit (nat hm') 1))
        (hm' * d') d' a' k' \<longrightarrow>
      P (new_parameter_set hash_size w wd hm' (hm' * d') d'
           (hypertree_cost d' cost_ots (word_of_int (push_bit (nat hm') 1))) a'
           (word_of_int (3 * push_bit (unat a') 1 - 1)) k') \<Longrightarrow>
   \<forall>p \<in> set (snd st'). P p"
proof (induction chk heap sec_level num_sig sign_op d_restrict h_restrict a_restrict hash_size w wd
      cost_ots h_merkle st rule: hm_loop.induct)
  case (1 chk heap sec_level num_sig sign_op d_restrict h_restrict a_restrict hash_size w wd
      cost_ots h_merkle st)
  note res = "1.prems"(1) and old = "1.prems"(2) and new = "1.prems"(3)
  show ?case
  proof (cases "h_merkle \<le> sec_level + 20 \<and> h_merkle < 32")
    case False
    with res have "st' = st" by (subst (asm) hm_loop.simps) (auto split: if_splits)
    with old show ?thesis by simp
  next
    case c: True
    have new': "\<forall>hm' d' a' k'. h_merkle + 1 \<le> hm' \<and> hm' < 32 \<and> hm' \<le> sec_level + 20 \<and> 1 \<le> d' \<and>
      passes_tests sec_level num_sig sign_op cost_ots (word_of_int (push_bit (nat hm') 1))
        (hm' * d') d' a' k' \<longrightarrow>
      P (new_parameter_set hash_size w wd hm' (hm' * d') d'
           (hypertree_cost d' cost_ots (word_of_int (push_bit (nat hm') 1))) a'
           (word_of_int (3 * push_bit (unat a') 1 - 1)) k')"
      using new by auto
    show ?thesis
    proof (cases "h_restrict \<noteq> 0 \<and> h_merkle \<noteq> h_restrict")
      case True
      with c res have r: "hm_loop chk heap sec_level num_sig sign_op d_restrict h_restrict
          a_restrict hash_size w wd cost_ots (h_merkle + 1) st = Inr st'"
        by (subst (asm) hm_loop.simps) (auto split: if_splits)
      from "1.IH"(1) [OF c True r old new'] show ?thesis .
    next
      case False
      from c False res obtain st1 where
        h: "h_loop chk heap sec_level num_sig sign_op d_restrict a_restrict hash_size w wd
                   cost_ots h_merkle (word_of_int (push_bit (nat h_merkle) 1)) h_merkle 1 st
              = Inr st1"
        and r: "hm_loop chk heap sec_level num_sig sign_op d_restrict h_restrict
          a_restrict hash_size w wd cost_ots (h_merkle + 1) st1 = Inr st'"
        by (subst (asm) hm_loop.simps) (auto split: sum.splits if_splits)
      have "\<forall>p \<in> set (snd st1). P p"
      proof (rule h_loop_elems_tests [OF h old])
        fix d' :: int and a' k' :: "32 word"
        assume d: "1 \<le> d'" and t: "passes_tests sec_level num_sig sign_op cost_ots
          (word_of_int (push_bit (nat h_merkle) 1)) (h_merkle + (d' - 1) * h_merkle) d' a' k'"
        have e: "h_merkle + (d' - 1) * h_merkle = h_merkle * d'" by (simp add: algebra_simps)
        note inst = new [THEN spec, THEN spec, THEN spec, THEN spec, of h_merkle d' a' k']
        from inst d t c show "P (new_parameter_set hash_size w wd h_merkle
            (h_merkle + (d' - 1) * h_merkle) d'
            (hypertree_cost d' cost_ots (word_of_int (push_bit (nat h_merkle) 1))) a'
            (word_of_int (3 * push_bit (unat a') 1 - 1)) k')"
          unfolding e by simp
      qed
      from "1.IH"(2) [OF c False h r this new'] show ?thesis .
    qed
  qed
qed

lemma current_list_queue_of: "current_list w qs = queue_of (queue_index w) qs"
  by (cases qs) (simp add: current_list_def queue_of_def queue_index_def)

lemma queue_of_set_current_list:
  "c < 3 \<Longrightarrow> queue_of c (set_current_list w list qs) =
     (if c = queue_index w then list else queue_of c qs)"
  by (cases qs) (auto simp: set_current_list_def queue_of_def queue_index_def)

lemma w_loop_elems_aux:
  "w_loop chk heap sec_level num_sig sign_op d_restrict h_restrict a_restrict hash_size w log_w st
     = Some y \<Longrightarrow>
   (\<forall>st'. y = Inr st' \<longrightarrow>
     (\<forall>c<3. \<forall>p \<in> set (queue_of c (snd st)). R c p) \<longrightarrow>
     (\<forall>w' log_w' cd hm' d' a' k'.
        (\<exists>j. unat w' = unat w * 2 ^ j \<and> log_w' = log_w + of_nat j) \<and> w' \<le> 256 \<and>
        checksum_loop w' ((w' - 1) * ((word_of_int sec_level + log_w' - 1) div log_w')) 1 w'
          = Some cd \<and>
        2 \<le> hm' \<and> hm' < 32 \<and> hm' \<le> sec_level + 20 \<and> 1 \<le> d' \<and>
        passes_tests sec_level num_sig sign_op
          (1 + ((word_of_int sec_level + log_w' - 1) div log_w' + cd) * w')
          (word_of_int (push_bit (nat hm') 1)) (hm' * d') d' a' k' \<longrightarrow>
        R (queue_index w')
          (new_parameter_set hash_size w' ((word_of_int sec_level + log_w' - 1) div log_w' + cd)
             hm' (hm' * d') d'
             (hypertree_cost d' (1 + ((word_of_int sec_level + log_w' - 1) div log_w' + cd) * w')
                (word_of_int (push_bit (nat hm') 1)))
             a' (word_of_int (3 * push_bit (unat a') 1 - 1)) k')) \<longrightarrow>
     (\<forall>c<3. \<forall>p \<in> set (queue_of c (snd st')). R c p))"
proof (induction rule: w_loop.raw_induct [rotated 1, consumes 1])
  case (1 w_loop' chk heap sec_level num_sig sign_op d_restrict h_restrict a_restrict hash_size
      w log_w st y)
  show ?case
  proof (rule allI, rule impI, rule impI, rule impI)
    fix st'
    assume y: "y = Inr st'"
      and old: "\<forall>c<3. \<forall>p \<in> set (queue_of c (snd st)). R c p"
      and new: "\<forall>w' log_w' cd hm' d' a' k'.
        (\<exists>j. unat w' = unat w * 2 ^ j \<and> log_w' = log_w + of_nat j) \<and> w' \<le> 256 \<and>
        checksum_loop w' ((w' - 1) * ((word_of_int sec_level + log_w' - 1) div log_w')) 1 w'
          = Some cd \<and>
        2 \<le> hm' \<and> hm' < 32 \<and> hm' \<le> sec_level + 20 \<and> 1 \<le> d' \<and>
        passes_tests sec_level num_sig sign_op
          (1 + ((word_of_int sec_level + log_w' - 1) div log_w' + cd) * w')
          (word_of_int (push_bit (nat hm') 1)) (hm' * d') d' a' k' \<longrightarrow>
        R (queue_index w')
          (new_parameter_set hash_size w' ((word_of_int sec_level + log_w' - 1) div log_w' + cd)
             hm' (hm' * d') d'
             (hypertree_cost d' (1 + ((word_of_int sec_level + log_w' - 1) div log_w' + cd) * w')
                (word_of_int (push_bit (nat hm') 1)))
             a' (word_of_int (3 * push_bit (unat a') 1 - 1)) k')"
    show "\<forall>c<3. \<forall>p \<in> set (queue_of c (snd st')). R c p"
    proof (cases "w \<le> 256")
      case False
      with 1(2) y have "st' = st" by simp
      with old show ?thesis by simp
    next
      case le: True
      define hash_d where "hash_d = (word_of_int sec_level + log_w - 1) div log_w"
      from 1(2) le obtain cd where cd: "checksum_loop w ((w - 1) * hash_d) 1 w = Some cd"
        by (auto simp: Let_def hash_d_def split: option.splits)
      define wd where "wd = hash_d + cd"
      define cost_ots where "cost_ots = 1 + wd * w"
      from 1(2) le cd y obtain n list where
        hm: "hm_loop chk heap sec_level num_sig sign_op d_restrict h_restrict a_restrict
            hash_size w wd cost_ots 2 (fst st, current_list w (snd st)) = Inr (n, list)"
        and r: "w_loop' chk heap sec_level num_sig sign_op d_restrict h_restrict a_restrict
            hash_size (push_bit 1 w) (log_w + 1) (n, set_current_list w list (snd st)) = Some y"
        by (auto simp: Let_def hash_d_def [symmetric] wd_def [symmetric] cost_ots_def [symmetric]
            split: sum.splits)
      have qi: "queue_index w < 3" by (simp add: queue_index_def)
      have "\<forall>p \<in> set (snd (n, list)). R (queue_index w) p"
      proof (rule hm_loop_elems [OF hm], goal_cases)
        case 1
        from old qi show ?case by (simp add: current_list_queue_of)
      next
        case 2
        show ?case
        proof (intro allI impI)
          fix hm' d' :: int and a' k' :: "32 word"
          assume a: "2 \<le> hm' \<and> hm' < 32 \<and> hm' \<le> sec_level + 20 \<and> 1 \<le> d' \<and>
            passes_tests sec_level num_sig sign_op cost_ots (word_of_int (push_bit (nat hm') 1))
              (hm' * d') d' a' k'"
          have j0: "\<exists>j. unat w = unat w * 2 ^ j \<and> log_w = log_w + of_nat j"
            by (rule exI [of _ 0]) simp
          note inst = new [THEN spec, THEN spec, THEN spec, THEN spec, THEN spec, THEN spec,
              THEN spec, of w log_w cd hm' d' a' k']
          from inst j0 le cd a
          show "R (queue_index w) (new_parameter_set hash_size w wd hm' (hm' * d') d'
             (hypertree_cost d' cost_ots (word_of_int (push_bit (nat hm') 1)))
             a' (word_of_int (3 * push_bit (unat a') 1 - 1)) k')"
            unfolding hash_d_def wd_def cost_ots_def by blast
        qed
      qed
      then have lst: "\<forall>p \<in> set list. R (queue_index w) p" by simp
      have old': "\<forall>c<3. \<forall>p \<in> set (queue_of c (snd (n, set_current_list w list (snd st)))). R c p"
        using old lst by (simp add: queue_of_set_current_list)
      from le have "unat w \<le> 256" by (simp add: word_le_nat_alt)
      then have dbl: "unat (push_bit 1 w) = unat w * 2"
        by (simp add: unat_word_ariths push_bit_eq_mult)
      have new': "\<forall>w' log_w' cd hm' d' a' k'.
        (\<exists>j. unat w' = unat (push_bit 1 w) * 2 ^ j \<and> log_w' = log_w + 1 + of_nat j) \<and> w' \<le> 256 \<and>
        checksum_loop w' ((w' - 1) * ((word_of_int sec_level + log_w' - 1) div log_w')) 1 w'
          = Some cd \<and>
        2 \<le> hm' \<and> hm' < 32 \<and> hm' \<le> sec_level + 20 \<and> 1 \<le> d' \<and>
        passes_tests sec_level num_sig sign_op
          (1 + ((word_of_int sec_level + log_w' - 1) div log_w' + cd) * w')
          (word_of_int (push_bit (nat hm') 1)) (hm' * d') d' a' k' \<longrightarrow>
        R (queue_index w')
          (new_parameter_set hash_size w' ((word_of_int sec_level + log_w' - 1) div log_w' + cd)
             hm' (hm' * d') d'
             (hypertree_cost d' (1 + ((word_of_int sec_level + log_w' - 1) div log_w' + cd) * w')
                (word_of_int (push_bit (nat hm') 1)))
             a' (word_of_int (3 * push_bit (unat a') 1 - 1)) k')"
      proof (intro allI impI)
        fix w' log_w' cd :: "32 word" and hm' d' :: int and a' k' :: "32 word"
        assume a: "(\<exists>j. unat w' = unat (push_bit 1 w) * 2 ^ j \<and> log_w' = log_w + 1 + of_nat j) \<and>
          w' \<le> 256 \<and>
          checksum_loop w' ((w' - 1) * ((word_of_int sec_level + log_w' - 1) div log_w')) 1 w'
            = Some cd \<and>
          2 \<le> hm' \<and> hm' < 32 \<and> hm' \<le> sec_level + 20 \<and> 1 \<le> d' \<and>
          passes_tests sec_level num_sig sign_op
            (1 + ((word_of_int sec_level + log_w' - 1) div log_w' + cd) * w')
            (word_of_int (push_bit (nat hm') 1)) (hm' * d') d' a' k'"
        then obtain j where j: "unat w' = unat (push_bit 1 w) * 2 ^ j"
          "log_w' = log_w + 1 + of_nat j" by blast
        have "unat w' = unat w * 2 ^ Suc j \<and> log_w' = log_w + of_nat (Suc j)"
          using j dbl by simp
        then have ex: "\<exists>j. unat w' = unat w * 2 ^ j \<and> log_w' = log_w + of_nat j" by blast
        note inst = new [THEN spec, THEN spec, THEN spec, THEN spec, THEN spec, THEN spec,
              THEN spec, of w' log_w' cd hm' d' a' k']
        from inst ex a
        show "R (queue_index w')
          (new_parameter_set hash_size w' ((word_of_int sec_level + log_w' - 1) div log_w' + cd)
             hm' (hm' * d') d'
             (hypertree_cost d' (1 + ((word_of_int sec_level + log_w' - 1) div log_w' + cd) * w')
                (word_of_int (push_bit (nat hm') 1)))
             a' (word_of_int (3 * push_bit (unat a') 1 - 1)) k')"
          by blast
      qed
      from 1(1) [OF r] y old' new' show ?thesis by blast
    qed
  qed
qed

lemma unat_two_power: "m < 32 \<Longrightarrow> unat (2 ^ m :: 32 word) = 2 ^ m"
proof -
  assume m: "m < 32"
  have "(2 ^ m :: 32 word) = of_nat (2 ^ m)" by simp
  then have "unat (2 ^ m :: 32 word) = 2 ^ m mod 2 ^ 32"
    by (simp only: unat_of_nat) simp
  moreover have "(2::nat) ^ m < 2 ^ 32" using m by (simp only: power_strict_increasing_iff)
  ultimately show ?thesis by simp
qed

lemma search_queues_elems:
  assumes sq: "search_queues chk heap sec_level num_sig sign_op d_restrict h_restrict a_restrict
      = Some (Inr (n, qs))"
    and new: "\<And>lw cd hm' d' a' k'. 2 \<le> lw \<Longrightarrow> lw \<le> 8 \<Longrightarrow>
        checksum_loop (2 ^ lw) ((2 ^ lw - 1) * ((word_of_int sec_level + of_nat lw - 1) div of_nat lw))
          1 (2 ^ lw) = Some cd \<Longrightarrow>
        2 \<le> hm' \<Longrightarrow> hm' < 32 \<Longrightarrow> hm' \<le> sec_level + 20 \<Longrightarrow> 1 \<le> d' \<Longrightarrow>
        passes_tests sec_level num_sig sign_op
          (1 + ((word_of_int sec_level + of_nat lw - 1) div of_nat lw + cd) * 2 ^ lw)
          (word_of_int (push_bit (nat hm') 1)) (hm' * d') d' a' k' \<Longrightarrow>
        R (queue_index (2 ^ lw))
          (new_parameter_set (word_of_int ((sec_level + 7) sdiv 8)) (2 ^ lw)
             ((word_of_int sec_level + of_nat lw - 1) div of_nat lw + cd)
             hm' (hm' * d') d'
             (hypertree_cost d' (1 + ((word_of_int sec_level + of_nat lw - 1) div of_nat lw + cd) * 2 ^ lw)
                (word_of_int (push_bit (nat hm') 1)))
             a' (word_of_int (3 * push_bit (unat a') 1 - 1)) k')"
  shows "\<forall>c<3. \<forall>p \<in> set (queue_of c qs). R c p"
proof -
  have old: "\<forall>c<3. \<forall>p \<in> set (queue_of c (snd (0 :: nat, ([], [], []) :: queues))). R c p"
    by (simp add: queue_of_def)
  have obl: "\<forall>w' log_w' cd hm' d' a' k'.
        (\<exists>j. unat w' = unat (4 :: 32 word) * 2 ^ j \<and> log_w' = 2 + of_nat j) \<and> w' \<le> 256 \<and>
        checksum_loop w' ((w' - 1) * ((word_of_int sec_level + log_w' - 1) div log_w')) 1 w'
          = Some cd \<and>
        2 \<le> hm' \<and> hm' < 32 \<and> hm' \<le> sec_level + 20 \<and> 1 \<le> d' \<and>
        passes_tests sec_level num_sig sign_op
          (1 + ((word_of_int sec_level + log_w' - 1) div log_w' + cd) * w')
          (word_of_int (push_bit (nat hm') 1)) (hm' * d') d' a' k' \<longrightarrow>
        R (queue_index w')
          (new_parameter_set (word_of_int ((sec_level + 7) sdiv 8)) w'
             ((word_of_int sec_level + log_w' - 1) div log_w' + cd)
             hm' (hm' * d') d'
             (hypertree_cost d' (1 + ((word_of_int sec_level + log_w' - 1) div log_w' + cd) * w')
                (word_of_int (push_bit (nat hm') 1)))
             a' (word_of_int (3 * push_bit (unat a') 1 - 1)) k')"
  proof (intro allI impI)
    fix w' log_w' cd :: "32 word" and hm' d' :: int and a' k' :: "32 word"
    assume a: "(\<exists>j. unat w' = unat (4 :: 32 word) * 2 ^ j \<and> log_w' = 2 + of_nat j) \<and> w' \<le> 256 \<and>
        checksum_loop w' ((w' - 1) * ((word_of_int sec_level + log_w' - 1) div log_w')) 1 w'
          = Some cd \<and>
        2 \<le> hm' \<and> hm' < 32 \<and> hm' \<le> sec_level + 20 \<and> 1 \<le> d' \<and>
        passes_tests sec_level num_sig sign_op
          (1 + ((word_of_int sec_level + log_w' - 1) div log_w' + cd) * w')
          (word_of_int (push_bit (nat hm') 1)) (hm' * d') d' a' k'"
    then obtain j where j: "unat w' = unat (4 :: 32 word) * 2 ^ j" "log_w' = 2 + of_nat j"
      by blast
    from a have "unat w' \<le> 256" by (simp add: word_le_nat_alt)
    with j(1) have "(2::nat) ^ (j + 2) \<le> 2 ^ 8" by (simp add: power_add mult.commute)
    then have j6: "j + 2 \<le> 8" by (simp only: power_increasing_iff) 
    from j(1) have "unat w' = 2 ^ (j + 2)" by (simp add: power_add mult.commute)
    moreover have "unat (2 ^ (j + 2) :: 32 word) = 2 ^ (j + 2)"
      using j6 by (intro unat_two_power) simp
    ultimately have w': "w' = 2 ^ (j + 2)" by (simp only: word_unat_eq_iff)
    have lw: "log_w' = of_nat (j + 2)" using j(2) by simp
    have "R (queue_index (2 ^ (j + 2)))
          (new_parameter_set (word_of_int ((sec_level + 7) sdiv 8)) (2 ^ (j + 2))
             ((word_of_int sec_level + of_nat (j + 2) - 1) div of_nat (j + 2) + cd)
             hm' (hm' * d') d'
             (hypertree_cost d' (1 + ((word_of_int sec_level + of_nat (j + 2) - 1) div of_nat (j + 2) + cd) * 2 ^ (j + 2))
                (word_of_int (push_bit (nat hm') 1)))
             a' (word_of_int (3 * push_bit (unat a') 1 - 1)) k')"
      using a j6 unfolding w' lw by (intro new) simp_all
    then show "R (queue_index w')
          (new_parameter_set (word_of_int ((sec_level + 7) sdiv 8)) w'
             ((word_of_int sec_level + log_w' - 1) div log_w' + cd)
             hm' (hm' * d') d'
             (hypertree_cost d' (1 + ((word_of_int sec_level + log_w' - 1) div log_w' + cd) * w')
                (word_of_int (push_bit (nat hm') 1)))
             a' (word_of_int (3 * push_bit (unat a') 1 - 1)) k')"
      unfolding w' lw .
  qed
  from w_loop_elems_aux [OF sq [unfolded search_queues_def], where R = R] old obl
  show ?thesis by simp
qed

lemma queue_classes:
  assumes "search_queues chk heap sec_level num_sig sign_op d_restrict h_restrict a_restrict
      = Some (Inr (n, qs))"
  shows "\<forall>c<3. \<forall>p \<in> set (queue_of c qs). width_class (p_w p) = c"
proof (rule search_queues_elems [OF assms, where R = "\<lambda>c p. width_class (p_w p) = c"])
  fix lw :: nat and cd :: "32 word" and hm' d' :: int and a' k' :: "32 word"
  assume "2 \<le> lw" "lw \<le> 8"
  then have "lw = 2 \<or> lw = 3 \<or> lw = 4 \<or> lw = 5 \<or> lw = 6 \<or> lw = 7 \<or> lw = 8" by arith
  then show "width_class (p_w (new_parameter_set (word_of_int ((sec_level + 7) sdiv 8)) (2 ^ lw)
       ((word_of_int sec_level + of_nat lw - 1) div of_nat lw + cd) hm' (hm' * d') d'
       (hypertree_cost d'
          (1 + ((word_of_int sec_level + of_nat lw - 1) div of_nat lw + cd) * 2 ^ lw)
          (word_of_int (push_bit (nat hm') 1)))
       a' (word_of_int (3 * push_bit (unat a') 1 - 1)) k')) = queue_index (2 ^ lw)"
    by (elim disjE) (simp_all add: new_parameter_set_def width_class_def queue_index_def)
qed

lemma update_levels_fst:
  "length (fst lv) = 3 \<Longrightarrow>
   length (fst (update_levels j overuse do_cutoff lv)) = 3 \<and>
   (\<forall>i<3. fst (update_levels j overuse do_cutoff lv) ! i =
      (if j \<le> i then max (fst lv ! i) overuse else fst lv ! i))"
proof (induction j overuse do_cutoff lv rule: update_levels.induct)
  case (1 j overuse do_cutoff lv)
  show ?case
  proof (cases "j < 3")
    case False
    then show ?thesis using "1.prems" by (subst (1 2) update_levels.simps) simp
  next
    case True
    let ?lv = "((if overuse > fst lv ! j then (fst lv)[j := overuse] else fst lv),
           (snd lv)[j := (snd lv ! j) OR do_cutoff])"
    have len: "length (fst ?lv) = 3" using "1.prems" by simp
    from "1.IH" [OF True len]
    have ih: "length (fst (update_levels (j + 1) overuse do_cutoff ?lv)) = 3"
      "\<forall>i<3. fst (update_levels (j + 1) overuse do_cutoff ?lv) ! i =
        (if j + 1 \<le> i then max (fst ?lv ! i) overuse else fst ?lv ! i)" by simp_all
    have e: "update_levels j overuse do_cutoff lv = update_levels (j + 1) overuse do_cutoff ?lv"
      using True by (subst update_levels.simps) simp
    have "fst (update_levels (j + 1) overuse do_cutoff ?lv) ! i =
        (if j \<le> i then max (fst lv ! i) overuse else fst lv ! i)" if "i < 3" for i
    proof -
      from ih(2) that have "fst (update_levels (j + 1) overuse do_cutoff ?lv) ! i =
        (if j + 1 \<le> i then max (fst ?lv ! i) overuse else fst ?lv ! i)" by simp
      also have "\<dots> = (if j \<le> i then max (fst lv ! i) overuse else fst lv ! i)"
        using that True "1.prems" by (cases "i = j") (auto simp: max_def)
      finally show ?thesis .
    qed
    with ih(1) show ?thesis unfolding e by simp
  qed
qed

section \<open>The order of the printed list\<close>

lemma pull_queue:
  "winner < 3 \<Longrightarrow> c < 3 \<Longrightarrow>
   queue_of c (pull_winner winner (queue_of winner qs) qs) =
     (if c = winner then tl (queue_of c qs) else queue_of c qs)"
  by (cases qs) (auto simp: pull_winner_def queue_of_def)

lemma set_tl_subset_set: "set (tl xs) \<subseteq> set xs"
  by (cases xs) auto

lemma pulled_subset:
  assumes "fst qs \<noteq> [] \<or> fst (snd qs) \<noteq> [] \<or> snd (snd qs) \<noteq> []" "c < 3"
  shows "set (queue_of c (pull_winner (snd (pick_winner qs)) (fst (pick_winner qs)) qs))
    \<subseteq> set (queue_of c qs)"
proof -
  from pick_winner_queue [OF assms(1)] have w: "snd (pick_winner qs) < 3"
    and p: "fst (pick_winner qs) = queue_of (snd (pick_winner qs)) qs" by simp_all
  show ?thesis
    unfolding p using pull_queue [OF w assms(2), of qs]
    using set_tl_subset_set [of "queue_of c qs"] by auto
qed

lemma pulled_sorted:
  assumes "fst qs \<noteq> [] \<or> fst (snd qs) \<noteq> [] \<or> snd (snd qs) \<noteq> []" "c < 3"
    "sorted_wrt R (queue_of c qs)"
  shows "sorted_wrt R (queue_of c (pull_winner (snd (pick_winner qs)) (fst (pick_winner qs)) qs))"
proof -
  from pick_winner_queue [OF assms(1)] have w: "snd (pick_winner qs) < 3"
    and p: "fst (pick_winner qs) = queue_of (snd (pick_winner qs)) qs" by simp_all
  have t: "sorted_wrt R (tl (queue_of c qs))"
    using assms(3) by (cases "queue_of c qs") simp_all
  show ?thesis
  proof (cases "c = snd (pick_winner qs)")
    case True
    with t pull_queue [OF w assms(2), of qs] show ?thesis unfolding p by simp
  next
    case False
    with assms(3) pull_queue [OF w assms(2), of qs] show ?thesis unfolding p by simp
  qed
qed

lemma winner_head_in_queue:
  assumes "fst qs \<noteq> [] \<or> fst (snd qs) \<noteq> [] \<or> snd (snd qs) \<noteq> []"
  shows "hd (fst (pick_winner qs)) \<in> set (queue_of (snd (pick_winner qs)) qs)"
  using pick_winner_queue [OF assms] by (metis list.set_sel(1))

lemma winner_head_least:
  assumes ne: "fst qs \<noteq> [] \<or> fst (snd qs) \<noteq> [] \<or> snd (snd qs) \<noteq> []"
    and srt: "sorted_wrt (\<lambda>x y. sig_size x \<le> sig_size y) (queue_of c qs)"
    and y: "y \<in> set (queue_of c qs)"
  shows "sig_size (hd (fst (pick_winner qs))) \<le> sig_size y"
proof -
  from y have n: "queue_of c qs \<noteq> []" by auto
  then obtain z zs where q: "queue_of c qs = z # zs" by (cases "queue_of c qs") auto
  from srt y q have "sig_size z \<le> sig_size y" by auto
  moreover from pick_winner_least [OF ne n] q
  have "sig_size (hd (fst (pick_winner qs))) \<le> sig_size z" by simp
  ultimately show ?thesis by simp
qed

lemma select_loop_sorted:
  assumes res: "select_loop csl test_sec_level max_s qs lv pl = Some res"
    and "sorted_wrt (\<lambda>x y. sig_size x \<le> sig_size y) pl"
    and "\<forall>c<3. sorted_wrt (\<lambda>x y. sig_size x \<le> sig_size y) (queue_of c qs)"
    and "\<forall>x \<in> set pl. \<forall>c<3. \<forall>y \<in> set (queue_of c qs). sig_size x \<le> sig_size y"
  shows "sorted_wrt (\<lambda>x y. sig_size x \<le> sig_size y) res"
proof -
  let ?le = "\<lambda>x y :: parameter_set. sig_size x \<le> sig_size y"
  let ?I = "\<lambda>(qs :: queues) (lv :: int list \<times> int list) pl.
     sorted_wrt ?le pl \<and> (\<forall>c<3. sorted_wrt ?le (queue_of c qs)) \<and>
     (\<forall>x \<in> set pl. \<forall>c<3. \<forall>y \<in> set (queue_of c qs). sig_size x \<le> sig_size y)"
  have "\<exists>qs' lv'. ?I qs' lv' res"
  proof (rule select_loop_invariant [OF res, where I = ?I], goal_cases)
    case 1
    from assms(2-4) show ?case by simp
  next
    case (2 qs lv pl)
    then show ?case
      using pulled_subset [OF 2(2)] pulled_sorted [OF 2(2)] by (simp add: subset_iff)
  next
    case (3 qs lv pl overuse)
    note ne = 3(2)
    from pick_winner_queue [OF ne] have w: "snd (pick_winner qs) < 3" by simp
    have hin: "hd (fst (pick_winner qs)) \<in> set (queue_of (snd (pick_winner qs)) qs)"
      by (rule winner_head_in_queue [OF ne])
    have a: "sorted_wrt ?le (pl @ [hd (fst (pick_winner qs))])"
      using 3(1) hin w by (auto simp: sorted_wrt_append)
    have b: "\<forall>c<3. sorted_wrt ?le
        (queue_of c (pull_winner (snd (pick_winner qs)) (fst (pick_winner qs)) qs))"
      using 3(1) pulled_sorted [OF ne] by simp
    have c: "sig_size x \<le> sig_size y"
      if "x \<in> set (pl @ [hd (fst (pick_winner qs))])" "c < 3"
        "y \<in> set (queue_of c (pull_winner (snd (pick_winner qs)) (fst (pick_winner qs)) qs))"
      for x c y
    proof -
      from that(2,3) pulled_subset [OF ne] have y: "y \<in> set (queue_of c qs)" by blast
      show ?thesis
      proof (cases "x \<in> set pl")
        case True
        with 3(1) that(2) y show ?thesis by blast
      next
        case False
        with that(1) have "x = hd (fst (pick_winner qs))" by simp
        moreover from 3(1) that(2) have "sorted_wrt ?le (queue_of c qs)" by simp
        ultimately show ?thesis using winner_head_least [OF ne _ y] by simp
      qed
    qed
    from a b c show ?case by blast
  qed
  then show ?thesis by blast
qed

lemma select_loop_subset:
  assumes res: "select_loop csl test_sec_level max_s qs lv pl = Some res"
    and "set pl \<subseteq> S" "\<forall>c<3. set (queue_of c qs) \<subseteq> S"
  shows "set res \<subseteq> S"
proof -
  let ?I = "\<lambda>(qs :: queues) (lv :: int list \<times> int list) pl.
     set pl \<subseteq> S \<and> (\<forall>c<3. set (queue_of c qs) \<subseteq> S)"
  have "\<exists>qs' lv'. ?I qs' lv' res"
  proof (rule select_loop_invariant [OF res, where I = ?I], goal_cases)
    case 1
    from assms(2,3) show ?case by simp
  next
    case (2 qs lv pl)
    then show ?case using pulled_subset [OF 2(2)] by blast
  next
    case (3 qs lv pl overuse)
    note ne = 3(2)
    from pick_winner_queue [OF ne] have w: "snd (pick_winner qs) < 3" by simp
    have hin: "hd (fst (pick_winner qs)) \<in> set (queue_of (snd (pick_winner qs)) qs)"
      by (rule winner_head_in_queue [OF ne])
    with 3(1) w have h: "hd (fst (pick_winner qs)) \<in> S" by blast
    have "set (queue_of c (pull_winner (snd (pick_winner qs)) (fst (pick_winner qs)) qs)) \<subseteq> S"
      if "c < 3" for c
      using pulled_subset [OF ne that] 3(1) that by blast
    with h 3(1) show ?case by simp
  qed
  then show ?thesis by blast
qed

lemma overuse_ordered_snoc:
  assumes "overuse_ordered csl t pl"
    and "overuse_score csl t x = Some ox"
    and "\<forall>y \<in> set pl. width_class (p_w y) \<le> width_class (p_w x) \<longrightarrow>
          (\<exists>oy. overuse_score csl t y = Some oy \<and> oy < ox)"
  shows "overuse_ordered csl t (pl @ [x])"
  unfolding overuse_ordered_def
proof (intro allI impI)
  fix i j
  assume a: "i < j \<and> j < length (pl @ [x]) \<and>
    width_class (p_w ((pl @ [x]) ! i)) \<le> width_class (p_w ((pl @ [x]) ! j))"
  then have i: "i < length pl" by simp
  show "\<exists>oi oj. overuse_score csl t ((pl @ [x]) ! i) = Some oi \<and>
      overuse_score csl t ((pl @ [x]) ! j) = Some oj \<and> oi < oj"
  proof (cases "j < length pl")
    case True
    with a i assms(1) show ?thesis
      unfolding overuse_ordered_def by (simp add: nth_append)
  next
    case False
    with a have j: "j = length pl" by simp
    from i have "pl ! i \<in> set pl" by simp
    moreover from a i j have "width_class (p_w (pl ! i)) \<le> width_class (p_w x)"
      by (simp add: nth_append)
    ultimately obtain oy where "overuse_score csl t (pl ! i) = Some oy" "oy < ox"
      using assms(3) by blast
    with assms(2) i j show ?thesis by (simp add: nth_append)
  qed
qed

lemma select_loop_overuse_ordered:
  assumes res: "select_loop csl test_sec_level max_s qs lv pl = Some res"
    and "length (fst lv) = 3"
    and "\<forall>c<3. \<forall>x \<in> set (queue_of c qs). width_class (p_w x) = c"
    and "\<forall>x \<in> set pl. \<exists>ox. overuse_score csl test_sec_level x = Some ox \<and>
           (\<forall>j<3. width_class (p_w x) \<le> j \<longrightarrow> ox \<le> fst lv ! j)"
    and "overuse_ordered csl test_sec_level pl"
  shows "overuse_ordered csl test_sec_level res"
proof -
  let ?I = "\<lambda>(qs :: queues) (lv :: int list \<times> int list) pl.
     length (fst lv) = 3 \<and>
     (\<forall>c<3. \<forall>x \<in> set (queue_of c qs). width_class (p_w x) = c) \<and>
     (\<forall>x \<in> set pl. \<exists>ox. overuse_score csl test_sec_level x = Some ox \<and>
           (\<forall>j<3. width_class (p_w x) \<le> j \<longrightarrow> ox \<le> fst lv ! j)) \<and>
     overuse_ordered csl test_sec_level pl"
  have "\<exists>qs' lv'. ?I qs' lv' res"
  proof (rule select_loop_invariant [OF res, where I = ?I], goal_cases)
    case 1
    from assms(2-5) show ?case by simp
  next
    case (2 qs lv pl)
    then show ?case using pulled_subset [OF 2(2)] by blast
  next
    case (3 qs lv pl overuse)
    note inv = 3(1) and ne = 3(2) and sc = 3(4) and gt = 3(5)
    define winner where "winner = snd (pick_winner qs)"
    define x where "x = hd (fst (pick_winner qs))"
    define lv' where "lv' = update_levels winner overuse
        (if max_s \<noteq> 0 \<and> overuse sdiv 100 \<ge> max_s then 1 else 0) lv"
    from pick_winner_queue [OF ne] have w: "winner < 3" by (simp add: winner_def)
    from inv have len: "length (fst lv) = 3" by simp
    from update_levels_fst [OF len] have len': "length (fst lv') = 3"
      and upd: "\<forall>i<3. fst lv' ! i = (if winner \<le> i then max (fst lv ! i) overuse else fst lv ! i)"
      by (simp_all add: lv'_def)
    have hin: "x \<in> set (queue_of winner qs)"
      unfolding x_def winner_def by (rule winner_head_in_queue [OF ne])
    with inv w have cx: "width_class (p_w x) = winner" by blast
    have q: "\<forall>c<3. \<forall>y \<in> set (queue_of c (pull_winner winner (fst (pick_winner qs)) qs)).
        width_class (p_w y) = c"
      using inv pulled_subset [OF ne] unfolding winner_def by blast
    have old: "\<exists>oy. overuse_score csl test_sec_level y = Some oy \<and>
           (\<forall>j<3. width_class (p_w y) \<le> j \<longrightarrow> oy \<le> fst lv' ! j)" if "y \<in> set pl" for y
    proof -
      from inv that obtain oy where oy: "overuse_score csl test_sec_level y = Some oy"
        "\<forall>j<3. width_class (p_w y) \<le> j \<longrightarrow> oy \<le> fst lv ! j" by blast
      have "oy \<le> fst lv' ! j" if "j < 3" "width_class (p_w y) \<le> j" for j
        using oy(2) that upd by (auto simp: max_def)
      with oy(1) show ?thesis by blast
    qed
    have new: "\<forall>j<3. width_class (p_w x) \<le> j \<longrightarrow> overuse \<le> fst lv' ! j"
      using upd cx by (auto simp: max_def)
    have below: "\<exists>oy. overuse_score csl test_sec_level y = Some oy \<and> oy < overuse"
      if "y \<in> set pl" "width_class (p_w y) \<le> width_class (p_w x)" for y
    proof -
      from inv that(1) obtain oy where oy: "overuse_score csl test_sec_level y = Some oy"
        "\<forall>j<3. width_class (p_w y) \<le> j \<longrightarrow> oy \<le> fst lv ! j" by blast
      from oy(2) w that(2) cx have "oy \<le> fst lv ! winner" by simp
      with gt have "oy < overuse" by (simp add: winner_def)
      with oy(1) show ?thesis by blast
    qed
    have ord: "overuse_ordered csl test_sec_level (pl @ [x])"
    proof (rule overuse_ordered_snoc)
      show "overuse_ordered csl test_sec_level pl" using inv by simp
      show "overuse_score csl test_sec_level x = Some overuse" using sc by (simp add: x_def)
      show "\<forall>y \<in> set pl. width_class (p_w y) \<le> width_class (p_w x) \<longrightarrow>
          (\<exists>oy. overuse_score csl test_sec_level y = Some oy \<and> oy < overuse)"
        using below by blast
    qed
    have all: "\<forall>y \<in> set (pl @ [x]). \<exists>oy. overuse_score csl test_sec_level y = Some oy \<and>
           (\<forall>j<3. width_class (p_w y) \<le> j \<longrightarrow> oy \<le> fst lv' ! j)"
      using old new sc by (auto simp: x_def)
    from len' q all ord show ?case
      unfolding winner_def x_def lv'_def by blast
  qed
  then show ?thesis by blast
qed

lemma select_loop_discard:
  assumes "fst qs \<noteq> [] \<or> fst (snd qs) \<noteq> [] \<or> snd (snd qs) \<noteq> []"
    and "snd lv ! snd (pick_winner qs) = 0"
    and "overuse_score csl test_sec_level (hd (fst (pick_winner qs))) = Some overuse"
    and "overuse \<le> fst lv ! snd (pick_winner qs)"
  shows "select_loop csl test_sec_level max_s qs lv pl =
    select_loop csl test_sec_level max_s
      (pull_winner (snd (pick_winner qs)) (fst (pick_winner qs)) qs) lv pl"
  using assms by (subst select_loop.simps) (simp add: Let_def overuse_score_def)

lemma fl_nat_exact: "n < 2 ^ 24 \<Longrightarrow> fl_nat n = n"
  by (simp add: fl_nat_def float_exp.simps)

lemma fl_exact: "\<bar>x\<bar> < 2 ^ 24 \<Longrightarrow> fl x = x"
proof -
  assume a: "\<bar>x\<bar> < 2 ^ 24"
  then have "nat \<bar>x\<bar> < 2 ^ 24" by simp
  then have "fl_nat (nat \<bar>x\<bar>) = nat \<bar>x\<bar>" by (rule fl_nat_exact)
  then show ?thesis by (simp add: fl_def mult_sgn_abs)
qed

lemmas search_eval = search_queues_def w_loop.simps checksum_loop.simps hm_loop.simps
  h_loop.simps a_loop.simps k_loop.simps fl_exact hypertree_cost_def too_few_leaves_def
  MAX_K_def current_list_def set_current_list_def new_parameter_set_def

lemma example_queues:
  "search_queues low_overuse_check heap 16 5 2030 11 2 1 =
     (if heap < 3 then Some (Inl Out_Of_Memory) else
      Some (Inr (3, [],
       [\<lparr>p_h = 22, p_d = 11, p_a = 1, p_k = 3, p_w = 4, sig_size = 300,
           sig_time = 2031, ver_time = 283\<rparr>,
        \<lparr>p_h = 22, p_d = 11, p_a = 1, p_k = 2, p_w = 4, sig_size = 296,
           sig_time = 2026, ver_time = 281\<rparr>,
        \<lparr>p_h = 22, p_d = 11, p_a = 1, p_k = 1, p_w = 4, sig_size = 292,
           sig_time = 2021, ver_time = 279\<rparr>], [])))"
  by (simp add: search_eval low_overuse_check_def low_overuse_level_def)

lemmas sort_eval = my_sort_def bin_insert_def ripple.simps combine_bins.simps NUM_BIN_def
  my_compare_def

lemmas scan_eval = compute_sigs_at_sec_level_def scan_lower.simps scan_fract.simps INT_MAX_def
  low_overuse_level_def

lemma example_sorted:
  "my_sort [\<lparr>p_h = 22, p_d = 11, p_a = 1, p_k = 3, p_w = 4, sig_size = 300,
           sig_time = 2031, ver_time = 283\<rparr>,
        \<lparr>p_h = 22, p_d = 11, p_a = 1, p_k = 2, p_w = 4, sig_size = 296,
           sig_time = 2026, ver_time = 281\<rparr>,
        \<lparr>p_h = 22, p_d = 11, p_a = 1, p_k = 1, p_w = 4, sig_size = 292,
           sig_time = 2021, ver_time = 279\<rparr>] =
     [\<lparr>p_h = 22, p_d = 11, p_a = 1, p_k = 1, p_w = 4, sig_size = 292,
           sig_time = 2021, ver_time = 279\<rparr>,
      \<lparr>p_h = 22, p_d = 11, p_a = 1, p_k = 2, p_w = 4, sig_size = 296,
           sig_time = 2026, ver_time = 281\<rparr>,
      \<lparr>p_h = 22, p_d = 11, p_a = 1, p_k = 3, p_w = 4, sig_size = 300,
           sig_time = 2031, ver_time = 283\<rparr>]"
  by (simp add: sort_eval)

lemma example_scores:
  "compute_sigs_at_sec_level low_overuse_level 8 22 1 1 = Some 1500"
  "compute_sigs_at_sec_level low_overuse_level 8 22 1 2 = Some 1600"
  "compute_sigs_at_sec_level low_overuse_level 8 22 1 3 = Some 1700"
  by (simp_all add: scan_eval)

lemma example_frontier:
  "3 \<le> heap \<Longrightarrow>
   do_search low_overuse_check low_overuse_level heap 16 5 8 2030 0 11 2 1 = Some (Inr
     [\<lparr>p_h = 22, p_d = 11, p_a = 1, p_k = 1, p_w = 4, sig_size = 292,
           sig_time = 2021, ver_time = 279\<rparr>,
      \<lparr>p_h = 22, p_d = 11, p_a = 1, p_k = 2, p_w = 4, sig_size = 296,
           sig_time = 2026, ver_time = 281\<rparr>,
      \<lparr>p_h = 22, p_d = 11, p_a = 1, p_k = 3, p_w = 4, sig_size = 300,
           sig_time = 2031, ver_time = 283\<rparr>])"
  by (simp add: do_search_def example_queues example_sorted my_sort_Nil select_loop.simps
      pick_winner_def pull_winner_def update_levels.simps example_scores Let_def)

lemma do_search_Inr:
  assumes "do_search chk csl heap sec_level num_sig test_sec_level sign_op max_s
      d_restrict h_restrict a_restrict = Some (Inr frontier)"
  obtains n qs where
    "search_queues chk heap sec_level num_sig sign_op d_restrict h_restrict a_restrict
       = Some (Inr (n, qs))"
    "select_loop csl test_sec_level max_s
       (my_sort (queue_of 0 qs), my_sort (queue_of 1 qs), my_sort (queue_of 2 qs))
       ([0, 0, 0], [0, 0, 0]) [] = Some frontier"
proof -
  from assms obtain n w16_q w256_q wother_q where
    sq: "search_queues chk heap sec_level num_sig sign_op d_restrict h_restrict a_restrict
       = Some (Inr (n, w16_q, w256_q, wother_q))"
    and sl: "select_loop csl test_sec_level max_s
       (my_sort w16_q, my_sort w256_q, my_sort wother_q) ([0, 0, 0], [0, 0, 0]) [] = Some frontier"
    by (auto simp: do_search_def split: option.splits sum.splits)
  show ?thesis
    by (rule that [of n "(w16_q, w256_q, wother_q)"]) (simp_all add: sq sl queue_of_def)
qed

lemma queue_of_sorted_triple:
  "c < 3 \<Longrightarrow> queue_of c (my_sort (queue_of 0 qs), my_sort (queue_of 1 qs), my_sort (queue_of 2 qs))
     = my_sort (queue_of c qs)"
  by (cases qs) (auto simp: queue_of_def)

lemma set_my_sort: "set (my_sort xs) = set xs"
  using my_sort_mset [of xs] by (metis set_mset_mset)

lemma my_sort_by_size: "sorted_wrt (\<lambda>x y. sig_size x \<le> sig_size y) (my_sort xs)"
  by (rule sorted_wrt_mono_rel [OF _ my_sort_sorted]) (auto simp: best_first_def)

lemma select_loop_returns:
  assumes "\<forall>H T K. 0 \<le> H \<and> H \<le> 255 \<and> 0 \<le> T \<and> T \<le> 255 \<and> 0 \<le> K \<and> K \<le> 255 \<longrightarrow>
      (\<exists>n. 0 \<le> n \<and> n \<le> 21474835 \<and> csl (real_of_int (n + 1)) H T K < real (unat test_sec_level))"
  shows "\<exists>r. select_loop csl test_sec_level max_s qs lv pl = Some r"
  using assms
proof (induction csl test_sec_level max_s qs lv pl rule: select_loop.induct)
  case (1 csl test_sec_level max_s qs lv print_list)
  note est = "1.prems"
  show ?case
  proof (cases "fst qs \<noteq> [] \<or> fst (snd qs) \<noteq> [] \<or> snd (snd qs) \<noteq> []")
    case False
    then show ?thesis by (subst select_loop.simps) simp
  next
    case ne: True
    define p where "p = fst (pick_winner qs)"
    define winner where "winner = snd (pick_winner qs)"
    define qs' where "qs' = pull_winner winner p qs"
    show ?thesis
    proof (cases "snd lv ! winner \<noteq> 0")
      case True
      from "1.IH"(1) [OF ne p_def winner_def qs'_def True est] ne True
      show ?thesis
        by (subst select_loop.simps) (simp add: Let_def p_def winner_def qs'_def)
    next
      case nc: False
      have b: "0 \<le> uint (x :: 8 word) \<and> uint x \<le> 255" for x
        using uint_bounded [of x] by simp
      from est b [of "p_h (hd p)"] b [of "p_a (hd p)"] b [of "p_k (hd p)"]
      obtain n where n: "0 \<le> n" "n \<le> 21474835"
        "csl (real_of_int (n + 1)) (uint (p_h (hd p))) (uint (p_a (hd p))) (uint (p_k (hd p)))
           < real (unat test_sec_level)"
        by blast
      from compute_sigs_at_sec_level_returns [where csl = csl, OF n]
      obtain overuse where Some: "compute_sigs_at_sec_level csl (real (unat test_sec_level))
          (uint (p_h (hd p))) (uint (p_a (hd p))) (uint (p_k (hd p))) = Some overuse"
        by blast
      show ?thesis
      proof (cases "overuse \<le> fst lv ! winner")
        case True
        from "1.IH"(2) [OF ne p_def winner_def qs'_def nc Some True est] ne nc Some True
        show ?thesis
          by (subst select_loop.simps) (simp add: Let_def p_def winner_def qs'_def)
      next
        case False
        define do_cutoff :: int
          where "do_cutoff = (if max_s \<noteq> 0 \<and> overuse sdiv 100 \<ge> max_s then 1 else 0)"
        define lv' where "lv' = update_levels winner overuse do_cutoff lv"
        show ?thesis
        proof (cases "snd lv' ! 0 \<noteq> 0")
          case True
          with ne nc Some False show ?thesis
            by (subst select_loop.simps)
              (simp add: Let_def p_def winner_def qs'_def lv'_def do_cutoff_def)
        next
          case nb: False
          from "1.IH"(3) [OF ne p_def winner_def qs'_def nc Some False do_cutoff_def lv'_def nb est]
            ne nc Some False nb
          show ?thesis
            by (subst select_loop.simps)
              (simp add: Let_def p_def winner_def qs'_def lv'_def do_cutoff_def)
        qed
      qed
    qed
  qed
qed

lemma w_loop_step_returns:
  assumes "w \<le> 256" "0 \<le> sec_level" "sec_level \<le> 65536" "unat log_w \<le> 8"
    "0 < unat w" "2 ^ 24 \<le> unat w * unat w ^ j" "unat w * unat w ^ j < 2 ^ 32" "0 < unat log_w"
    and nxt: "\<And>st'. \<exists>r. w_loop chk heap sec_level num_sig sign_op d_restrict h_restrict a_restrict
       hash_size (push_bit 1 w) (log_w + 1) st' = Some r"
  shows "\<exists>r. w_loop chk heap sec_level num_sig sign_op d_restrict h_restrict a_restrict hash_size
      w log_w st = Some r"
proof -
  define hash_d where "hash_d = (word_of_int sec_level + log_w - 1) div log_w"
  from assms(1) have "unat w \<le> 256" by (simp add: word_le_nat_alt)
  with assms(2-5,8) have "unat ((w - 1) * hash_d) \<le> 2 ^ 24"
    unfolding hash_d_def by (intro max_sum_small) simp_all
  with assms(6) have "unat ((w - 1) * hash_d) \<le> unat w * unat w ^ j" by simp
  then obtain cd where cd: "checksum_loop w ((w - 1) * hash_d) 1 w = Some cd"
    using checksum_loop_returns [OF _ assms(7) assms(5)] by blast
  show ?thesis
  proof (cases "hm_loop chk heap sec_level num_sig sign_op d_restrict h_restrict a_restrict
      hash_size w (hash_d + cd) (1 + (hash_d + cd) * w) 2 (fst st, current_list w (snd st))")
    case (Inl e)
    with assms(1) cd show ?thesis
      by (subst w_loop.simps) (simp add: Let_def hash_d_def [symmetric])
  next
    case (Inr y)
    obtain n list where y: "y = (n, list)" by (cases y)
    from nxt [of "(n, set_current_list w list (snd st))"] Inr y assms(1) cd show ?thesis
      by (subst w_loop.simps) (simp add: Let_def hash_d_def [symmetric])
  qed
qed

lemma search_queues_returns:
  assumes "0 \<le> sec_level" "sec_level \<le> 65536"
  shows "\<exists>r. search_queues chk heap sec_level num_sig sign_op d_restrict h_restrict a_restrict
    = Some r"
proof -
  note st = w_loop_step_returns [OF _ assms]
  have "\<exists>r. w_loop chk heap sec_level num_sig sign_op d_restrict h_restrict a_restrict
      hash_size 4 2 s = Some r" for hash_size s
    apply (rule st [where j = 11], simp_all)
    apply (rule st [where j = 7], simp_all)
    apply (rule st [where j = 5], simp_all)
    apply (rule st [where j = 4], simp_all)
    apply (rule st [where j = 3], simp_all)
    apply (rule st [where j = 3], simp_all)
    apply (rule st [where j = 2], simp_all)
    apply (subst w_loop.simps, simp)
    done
  then show ?thesis by (simp add: search_queues_def)
qed

lemma do_search_returns:
  assumes "0 \<le> sec_level" "sec_level \<le> 65536"
    and "\<forall>H T K. 0 \<le> H \<and> H \<le> 255 \<and> 0 \<le> T \<and> T \<le> 255 \<and> 0 \<le> K \<and> K \<le> 255 \<longrightarrow>
      (\<exists>n. 0 \<le> n \<and> n \<le> 21474835 \<and> csl (real_of_int (n + 1)) H T K < real (unat test_sec_level))"
  shows "\<exists>r. do_search chk csl heap sec_level num_sig test_sec_level sign_op max_s
      d_restrict h_restrict a_restrict = Some r"
proof -
  from search_queues_returns [OF assms(1,2)] obtain y where
    y: "search_queues chk heap sec_level num_sig sign_op d_restrict h_restrict a_restrict = Some y"
    by blast
  show ?thesis
  proof (cases y)
    case (Inl e)
    with y show ?thesis by (simp add: do_search_def)
  next
    case (Inr z)
    obtain n w16_q w256_q wother_q where z: "z = (n, w16_q, w256_q, wother_q)" by (cases z)
    from select_loop_returns [OF assms(3)] obtain r where
      "select_loop csl test_sec_level max_s (my_sort w16_q, my_sort w256_q, my_sort wother_q)
         ([0, 0, 0], [0, 0, 0]) [] = Some r" by blast
    with y Inr z show ?thesis by (simp add: do_search_def)
  qed
qed

lemma low_overuse_level_falls:
  "\<forall>H T K. 0 \<le> H \<and> H \<le> 255 \<and> 0 \<le> T \<and> T \<le> 255 \<and> 0 \<le> K \<and> K \<le> 255 \<longrightarrow>
      (\<exists>n. 0 \<le> n \<and> n \<le> 21474835 \<and> low_overuse_level (real_of_int (n + 1)) H T K < real (unat (t :: 32 word)))"
proof (intro allI impI)
  fix H T K :: int
  assume a: "0 \<le> H \<and> H \<le> 255 \<and> 0 \<le> T \<and> T \<le> 255 \<and> 0 \<le> K \<and> K \<le> 255"
  then have "K * T \<le> 255 * 255" by (intro mult_mono) simp_all
  with a have "H + K * T - 70001 < 0" by simp
  then have "real_of_int (H + K * T - 70001) < 0" by (simp only: of_int_less_0_iff)
  then have "low_overuse_level (real_of_int (70000 + 1)) H T K < 0"
    by (simp add: low_overuse_level_def)
  also have "0 \<le> real (unat t)" by (rule of_nat_0_le_iff)
  finally have "low_overuse_level (real_of_int (70000 + 1)) H T K < real (unat t)" .
  then show "\<exists>n. 0 \<le> n \<and> n \<le> 21474835 \<and> low_overuse_level (real_of_int (n + 1)) H T K < real (unat t)"
    by (intro exI [of _ 70000]) simp
qed

lemma discard_queues:
  "search_queues low_overuse_check 1000 16 5 5068 11 2 8 =
      Some (Inr (6,
       [\<lparr>p_h = 22, p_d = 11, p_a = 8, p_k = 1, p_w = 16, sig_size = 196,
           sig_time = 5071, ver_time = 572\<rparr>],
       [\<lparr>p_h = 22, p_d = 11, p_a = 8, p_k = 3, p_w = 4, sig_size = 342,
           sig_time = 4317, ver_time = 304\<rparr>,
        \<lparr>p_h = 22, p_d = 11, p_a = 8, p_k = 2, p_w = 4, sig_size = 324,
           sig_time = 3550, ver_time = 295\<rparr>,
        \<lparr>p_h = 22, p_d = 11, p_a = 8, p_k = 1, p_w = 4, sig_size = 306,
           sig_time = 2783, ver_time = 286\<rparr>],
       [\<lparr>p_h = 22, p_d = 11, p_a = 8, p_k = 2, p_w = 8, sig_size = 258,
           sig_time = 4430, ver_time = 405\<rparr>,
        \<lparr>p_h = 22, p_d = 11, p_a = 8, p_k = 1, p_w = 8, sig_size = 240,
           sig_time = 3663, ver_time = 396\<rparr>]))"
  by (simp add: search_eval low_overuse_check_def low_overuse_level_def)

lemma discard_sorted:
  "my_sort [\<lparr>p_h = 22, p_d = 11, p_a = 8, p_k = 1, p_w = 16, sig_size = 196,
           sig_time = 5071, ver_time = 572\<rparr>] =
     [\<lparr>p_h = 22, p_d = 11, p_a = 8, p_k = 1, p_w = 16, sig_size = 196,
           sig_time = 5071, ver_time = 572\<rparr>]"
  "my_sort [\<lparr>p_h = 22, p_d = 11, p_a = 8, p_k = 3, p_w = 4, sig_size = 342,
           sig_time = 4317, ver_time = 304\<rparr>,
        \<lparr>p_h = 22, p_d = 11, p_a = 8, p_k = 2, p_w = 4, sig_size = 324,
           sig_time = 3550, ver_time = 295\<rparr>,
        \<lparr>p_h = 22, p_d = 11, p_a = 8, p_k = 1, p_w = 4, sig_size = 306,
           sig_time = 2783, ver_time = 286\<rparr>] =
     [\<lparr>p_h = 22, p_d = 11, p_a = 8, p_k = 1, p_w = 4, sig_size = 306,
           sig_time = 2783, ver_time = 286\<rparr>,
      \<lparr>p_h = 22, p_d = 11, p_a = 8, p_k = 2, p_w = 4, sig_size = 324,
           sig_time = 3550, ver_time = 295\<rparr>,
      \<lparr>p_h = 22, p_d = 11, p_a = 8, p_k = 3, p_w = 4, sig_size = 342,
           sig_time = 4317, ver_time = 304\<rparr>]"
  "my_sort [\<lparr>p_h = 22, p_d = 11, p_a = 8, p_k = 2, p_w = 8, sig_size = 258,
           sig_time = 4430, ver_time = 405\<rparr>,
        \<lparr>p_h = 22, p_d = 11, p_a = 8, p_k = 1, p_w = 8, sig_size = 240,
           sig_time = 3663, ver_time = 396\<rparr>] =
     [\<lparr>p_h = 22, p_d = 11, p_a = 8, p_k = 1, p_w = 8, sig_size = 240,
           sig_time = 3663, ver_time = 396\<rparr>,
      \<lparr>p_h = 22, p_d = 11, p_a = 8, p_k = 2, p_w = 8, sig_size = 258,
           sig_time = 4430, ver_time = 405\<rparr>]"
  by (simp_all add: sort_eval)

lemma discard_scores:
  "compute_sigs_at_sec_level low_overuse_level 8 22 8 1 = Some 2200"
  "compute_sigs_at_sec_level low_overuse_level 8 22 8 2 = Some 3000"
  "compute_sigs_at_sec_level low_overuse_level 8 22 8 3 = Some 3800"
  by (simp_all add: scan_eval)

lemma discard_frontier:
  "do_search low_overuse_check low_overuse_level 1000 16 5 8 5068 0 11 2 8 = Some (Inr
     [\<lparr>p_h = 22, p_d = 11, p_a = 8, p_k = 1, p_w = 16, sig_size = 196,
           sig_time = 5071, ver_time = 572\<rparr>,
      \<lparr>p_h = 22, p_d = 11, p_a = 8, p_k = 2, p_w = 8, sig_size = 258,
           sig_time = 4430, ver_time = 405\<rparr>,
      \<lparr>p_h = 22, p_d = 11, p_a = 8, p_k = 2, p_w = 4, sig_size = 324,
           sig_time = 3550, ver_time = 295\<rparr>,
      \<lparr>p_h = 22, p_d = 11, p_a = 8, p_k = 3, p_w = 4, sig_size = 342,
           sig_time = 4317, ver_time = 304\<rparr>])"
  by (simp add: do_search_def discard_queues discard_sorted select_loop.simps
      pick_winner_def pull_winner_def update_levels.simps discard_scores Let_def)

text \<open>
  Claim C6. The list that \<^verbatim>\<open>do_search\<close> prints is in smallest-signature-first order: a
  later entry never has a smaller signature size than an earlier one. While a queue is
  not empty the selection pops the head of the queue numbered \<^verbatim>\<open>winner\<close>, and that head
  has a strictly smaller signature size than the head of every non-empty queue that is
  checked before it (a queue with a lower number). The list is produced: for a security
  level from 0 to 65536 and an estimate that falls below the tested level at some
  whole number of signatures up to 21474835, for every height and FORS shape that a
  parameter set can hold, \<^verbatim>\<open>do_search\<close> comes back, with the list or from a failed
  \<^verbatim>\<open>malloc\<close>.
\<close>

theorem frontier_smallest_signature_first:
  "(0 \<le> sec_level \<and> sec_level \<le> 65536 \<and>
      (\<forall>H T K. 0 \<le> H \<and> H \<le> 255 \<and> 0 \<le> T \<and> T \<le> 255 \<and> 0 \<le> K \<and> K \<le> 255 \<longrightarrow>
         (\<exists>n. 0 \<le> n \<and> n \<le> 21474835 \<and>
            csl (real_of_int (n + 1)) H T K < real (unat test_sec_level))) \<longrightarrow>
      (\<exists>r. do_search chk csl heap sec_level num_sig test_sec_level sign_op max_s
         d_restrict h_restrict a_restrict = Some r)) \<and>
   (\<forall>frontier. do_search chk csl heap sec_level num_sig test_sec_level sign_op max_s
        d_restrict h_restrict a_restrict = Some (Inr frontier) \<longrightarrow>
      sorted_wrt (\<lambda>x y. sig_size x \<le> sig_size y) frontier) \<and>
   (\<forall>qs c. fst qs \<noteq> [] \<or> fst (snd qs) \<noteq> [] \<or> snd (snd qs) \<noteq> [] \<longrightarrow>
      fst (pick_winner qs) = queue_of (snd (pick_winner qs)) qs \<and>
      fst (pick_winner qs) \<noteq> [] \<and>
      (c < snd (pick_winner qs) \<and> queue_of c qs \<noteq> [] \<longrightarrow>
         sig_size (hd (fst (pick_winner qs))) < sig_size (hd (queue_of c qs))))"
proof (intro conjI allI impI)
  assume a: "0 \<le> sec_level \<and> sec_level \<le> 65536 \<and>
      (\<forall>H T K. 0 \<le> H \<and> H \<le> 255 \<and> 0 \<le> T \<and> T \<le> 255 \<and> 0 \<le> K \<and> K \<le> 255 \<longrightarrow>
         (\<exists>n. 0 \<le> n \<and> n \<le> 21474835 \<and>
            csl (real_of_int (n + 1)) H T K < real (unat test_sec_level)))"
  from a have a1: "0 \<le> sec_level" and a2: "sec_level \<le> 65536" by simp_all
  from a have a3: "\<forall>H T K. 0 \<le> H \<and> H \<le> 255 \<and> 0 \<le> T \<and> T \<le> 255 \<and> 0 \<le> K \<and> K \<le> 255 \<longrightarrow>
         (\<exists>n. 0 \<le> n \<and> n \<le> 21474835 \<and>
            csl (real_of_int (n + 1)) H T K < real (unat test_sec_level))" by (elim conjE)
  show "\<exists>r. do_search chk csl heap sec_level num_sig test_sec_level sign_op max_s
         d_restrict h_restrict a_restrict = Some r"
    by (rule do_search_returns [OF a1 a2 a3])
next
  fix frontier
  assume "do_search chk csl heap sec_level num_sig test_sec_level sign_op max_s
        d_restrict h_restrict a_restrict = Some (Inr frontier)"
  then obtain n qs where
    sl: "select_loop csl test_sec_level max_s
       (my_sort (queue_of 0 qs), my_sort (queue_of 1 qs), my_sort (queue_of 2 qs))
       ([0, 0, 0], [0, 0, 0]) [] = Some frontier"
    by (rule do_search_Inr)
  have "\<forall>c<3. sorted_wrt (\<lambda>x y. sig_size x \<le> sig_size y) (queue_of c
      (my_sort (queue_of 0 qs), my_sort (queue_of 1 qs), my_sort (queue_of 2 qs)))"
  proof (intro allI impI)
    fix c :: nat
    assume "c < 3"
    from queue_of_sorted_triple [OF this, of qs]
    show "sorted_wrt (\<lambda>x y. sig_size x \<le> sig_size y) (queue_of c
      (my_sort (queue_of 0 qs), my_sort (queue_of 1 qs), my_sort (queue_of 2 qs)))"
      by (simp only: my_sort_by_size)
  qed
  then show "sorted_wrt (\<lambda>x y. sig_size x \<le> sig_size y) frontier"
    by (intro select_loop_sorted [OF sl]) simp_all
next
  fix qs :: queues and c :: nat
  assume ne: "fst qs \<noteq> [] \<or> fst (snd qs) \<noteq> [] \<or> snd (snd qs) \<noteq> []"
  from pick_winner_queue [OF ne]
  show "fst (pick_winner qs) = queue_of (snd (pick_winner qs)) qs"
    and "fst (pick_winner qs) \<noteq> []" by blast+
  assume "c < snd (pick_winner qs) \<and> queue_of c qs \<noteq> []"
  then show "sig_size (hd (fst (pick_winner qs))) < sig_size (hd (queue_of c qs))"
    using pick_winner_strict by blast
qed

text \<open>
  Claim C7. In the list that \<^verbatim>\<open>do_search\<close> prints, every entry has a strictly higher
  overuse score than each earlier entry of an equal or easier width class; so no entry is
  preceded by an entry of an equal or easier class whose signature size is at most as
  large and whose overuse score is at least as large. This rests on two facts about the
  selection loop, stated with it: a popped parameter set whose score does not exceed
  \<^verbatim>\<open>min_sec_level[winner]\<close> is dropped and leaves the state as it was, and an accepted
  one lifts \<^verbatim>\<open>min_sec_level[j]\<close> to at least its score for its own class and every
  harder class \<open>j\<close>, leaving the easier classes alone. The list is produced: for a
  security level from 0 to 65536 and an estimate that falls below the tested level at
  some whole number of signatures up to 21474835, for every height and FORS shape that
  a parameter set can hold, \<^verbatim>\<open>do_search\<close> comes back, with the list or from a failed
  \<^verbatim>\<open>malloc\<close>.
\<close>

theorem frontier_overuse_strictly_better:
  "(0 \<le> sec_level \<and> sec_level \<le> 65536 \<and>
      (\<forall>H T K. 0 \<le> H \<and> H \<le> 255 \<and> 0 \<le> T \<and> T \<le> 255 \<and> 0 \<le> K \<and> K \<le> 255 \<longrightarrow>
         (\<exists>n. 0 \<le> n \<and> n \<le> 21474835 \<and>
            csl (real_of_int (n + 1)) H T K < real (unat test_sec_level))) \<longrightarrow>
      (\<exists>r. do_search chk csl heap sec_level num_sig test_sec_level sign_op max_s
         d_restrict h_restrict a_restrict = Some r)) \<and>
   (\<forall>frontier. do_search chk csl heap sec_level num_sig test_sec_level sign_op max_s
        d_restrict h_restrict a_restrict = Some (Inr frontier) \<longrightarrow>
      overuse_ordered csl test_sec_level frontier \<and>
      (\<forall>i j. i < j \<and> j < length frontier \<and>
         width_class (p_w (frontier ! i)) \<le> width_class (p_w (frontier ! j)) \<longrightarrow>
         \<not> (sig_size (frontier ! i) \<le> sig_size (frontier ! j) \<and>
            (\<exists>oi oj. overuse_score csl test_sec_level (frontier ! i) = Some oi \<and>
               overuse_score csl test_sec_level (frontier ! j) = Some oj \<and> oi \<ge> oj)))) \<and>
   (\<forall>qs lv pl overuse.
      (fst qs \<noteq> [] \<or> fst (snd qs) \<noteq> [] \<or> snd (snd qs) \<noteq> []) \<and>
      snd lv ! snd (pick_winner qs) = 0 \<and>
      overuse_score csl test_sec_level (hd (fst (pick_winner qs))) = Some overuse \<and>
      overuse \<le> fst lv ! snd (pick_winner qs) \<longrightarrow>
      select_loop csl test_sec_level max_s qs lv pl =
      select_loop csl test_sec_level max_s
        (pull_winner (snd (pick_winner qs)) (fst (pick_winner qs)) qs) lv pl) \<and>
   (\<forall>winner overuse do_cutoff lv i. length (fst lv) = 3 \<and> i < 3 \<longrightarrow>
      fst (update_levels winner overuse do_cutoff lv) ! i =
        (if winner \<le> i then max (fst lv ! i) overuse else fst lv ! i))"
proof (intro conjI allI impI)
  assume a: "0 \<le> sec_level \<and> sec_level \<le> 65536 \<and>
      (\<forall>H T K. 0 \<le> H \<and> H \<le> 255 \<and> 0 \<le> T \<and> T \<le> 255 \<and> 0 \<le> K \<and> K \<le> 255 \<longrightarrow>
         (\<exists>n. 0 \<le> n \<and> n \<le> 21474835 \<and>
            csl (real_of_int (n + 1)) H T K < real (unat test_sec_level)))"
  from a have a1: "0 \<le> sec_level" and a2: "sec_level \<le> 65536" by simp_all
  from a have a3: "\<forall>H T K. 0 \<le> H \<and> H \<le> 255 \<and> 0 \<le> T \<and> T \<le> 255 \<and> 0 \<le> K \<and> K \<le> 255 \<longrightarrow>
         (\<exists>n. 0 \<le> n \<and> n \<le> 21474835 \<and>
            csl (real_of_int (n + 1)) H T K < real (unat test_sec_level))" by (elim conjE)
  show "\<exists>r. do_search chk csl heap sec_level num_sig test_sec_level sign_op max_s
         d_restrict h_restrict a_restrict = Some r"
    by (rule do_search_returns [OF a1 a2 a3])
next
  fix frontier
  assume ds: "do_search chk csl heap sec_level num_sig test_sec_level sign_op max_s
        d_restrict h_restrict a_restrict = Some (Inr frontier)"
  then obtain n qs where
    sq: "search_queues chk heap sec_level num_sig sign_op d_restrict h_restrict a_restrict
       = Some (Inr (n, qs))"
    and sl: "select_loop csl test_sec_level max_s
       (my_sort (queue_of 0 qs), my_sort (queue_of 1 qs), my_sort (queue_of 2 qs))
       ([0, 0, 0], [0, 0, 0]) [] = Some frontier"
    by (rule do_search_Inr)
  show oo: "overuse_ordered csl test_sec_level frontier"
  proof (rule select_loop_overuse_ordered [OF sl])
    show "length (fst ([0, 0, 0] :: int list, [0, 0, 0] :: int list)) = 3" by simp
    show "\<forall>c<3. \<forall>x \<in> set (queue_of c
        (my_sort (queue_of 0 qs), my_sort (queue_of 1 qs), my_sort (queue_of 2 qs))).
        width_class (p_w x) = c"
    proof (intro allI impI)
      fix c :: nat
      assume c: "c < 3"
      from queue_classes [OF sq] c
      have "\<forall>x \<in> set (my_sort (queue_of c qs)). width_class (p_w x) = c"
        by (simp add: set_my_sort)
      then show "\<forall>x \<in> set (queue_of c
        (my_sort (queue_of 0 qs), my_sort (queue_of 1 qs), my_sort (queue_of 2 qs))).
        width_class (p_w x) = c"
        by (simp only: queue_of_sorted_triple [OF c])
    qed
    show "\<forall>x \<in> set []. \<exists>ox. overuse_score csl test_sec_level x = Some ox \<and>
        (\<forall>j<3. width_class (p_w x) \<le> j \<longrightarrow>
           ox \<le> fst ([0, 0, 0] :: int list, [0, 0, 0] :: int list) ! j)" by simp
    show "overuse_ordered csl test_sec_level []" by (simp add: overuse_ordered_def)
  qed
  fix i j
  assume ij: "i < j \<and> j < length frontier \<and>
         width_class (p_w (frontier ! i)) \<le> width_class (p_w (frontier ! j))"
  with oo obtain oi oj where "overuse_score csl test_sec_level (frontier ! i) = Some oi"
    "overuse_score csl test_sec_level (frontier ! j) = Some oj" "oi < oj"
    unfolding overuse_ordered_def by blast
  then show "\<not> (sig_size (frontier ! i) \<le> sig_size (frontier ! j) \<and>
            (\<exists>oi oj. overuse_score csl test_sec_level (frontier ! i) = Some oi \<and>
               overuse_score csl test_sec_level (frontier ! j) = Some oj \<and> oi \<ge> oj))"
    by auto
next
  fix qs :: queues and lv :: "int list \<times> int list" and pl overuse
  assume a: "(fst qs \<noteq> [] \<or> fst (snd qs) \<noteq> [] \<or> snd (snd qs) \<noteq> []) \<and>
      snd lv ! snd (pick_winner qs) = 0 \<and>
      overuse_score csl test_sec_level (hd (fst (pick_winner qs))) = Some overuse \<and>
      overuse \<le> fst lv ! snd (pick_winner qs)"
  from a have a1: "fst qs \<noteq> [] \<or> fst (snd qs) \<noteq> [] \<or> snd (snd qs) \<noteq> []" by blast
  from a have a2: "snd lv ! snd (pick_winner qs) = 0" by blast
  from a have a3: "overuse_score csl test_sec_level (hd (fst (pick_winner qs))) = Some overuse"
    by blast
  from a have a4: "overuse \<le> fst lv ! snd (pick_winner qs)" by blast
  show "select_loop csl test_sec_level max_s qs lv pl =
      select_loop csl test_sec_level max_s
        (pull_winner (snd (pick_winner qs)) (fst (pick_winner qs)) qs) lv pl"
    by (rule select_loop_discard [OF a1 a2 a3 a4])
next
  fix winner :: nat and overuse do_cutoff :: int and lv :: "int list \<times> int list" and i :: nat
  assume "length (fst lv) = 3 \<and> i < 3"
  then show "fst (update_levels winner overuse do_cutoff lv) ! i =
        (if winner \<le> i then max (fst lv ! i) overuse else fst lv ! i)"
    using update_levels_fst [of lv winner overuse do_cutoff] by simp
qed

text \<open>
  A run with three listed parameter sets of sizes 292, 296 and 300, which comes back
  because the estimate \<open>H + K * T - m\<close> falls below every tested level at 70001
  signatures, and a choice between a \<open>w = 16\<close> head of size 296 and a \<open>w = 4\<close> head of
  size 292, which the second queue wins.
\<close>

theorem frontier_smallest_signature_first_witness:
  "(0::int) \<le> 16 \<and> (16::int) \<le> 65536 \<and>
   (\<exists>r. do_search low_overuse_check low_overuse_level 1000 16 5 8 2030 0 11 2 1 = Some r) \<and>
   do_search low_overuse_check low_overuse_level 1000 16 5 8 2030 0 11 2 1 = Some (Inr
     [\<lparr>p_h = 22, p_d = 11, p_a = 1, p_k = 1, p_w = 4, sig_size = 292,
           sig_time = 2021, ver_time = 279\<rparr>,
      \<lparr>p_h = 22, p_d = 11, p_a = 1, p_k = 2, p_w = 4, sig_size = 296,
           sig_time = 2026, ver_time = 281\<rparr>,
      \<lparr>p_h = 22, p_d = 11, p_a = 1, p_k = 3, p_w = 4, sig_size = 300,
           sig_time = 2031, ver_time = 283\<rparr>]) \<and>
   sorted_wrt (\<lambda>x y. sig_size x \<le> sig_size y)
     [\<lparr>p_h = 22, p_d = 11, p_a = 1, p_k = 1, p_w = 4, sig_size = 292,
           sig_time = 2021, ver_time = 279\<rparr>,
      \<lparr>p_h = 22, p_d = 11, p_a = 1, p_k = 2, p_w = 4, sig_size = 296,
           sig_time = 2026, ver_time = 281\<rparr>,
      \<lparr>p_h = 22, p_d = 11, p_a = 1, p_k = 3, p_w = 4, sig_size = 300,
           sig_time = 2031, ver_time = 283\<rparr>] \<and>
   snd (pick_winner
     ([\<lparr>p_h = 22, p_d = 11, p_a = 1, p_k = 2, p_w = 16, sig_size = 296,
           sig_time = 2026, ver_time = 281\<rparr>],
      [\<lparr>p_h = 22, p_d = 11, p_a = 1, p_k = 1, p_w = 4, sig_size = 292,
           sig_time = 2021, ver_time = 279\<rparr>], [])) = 1 \<and>
   sig_size (hd (fst (pick_winner
     ([\<lparr>p_h = 22, p_d = 11, p_a = 1, p_k = 2, p_w = 16, sig_size = 296,
           sig_time = 2026, ver_time = 281\<rparr>],
      [\<lparr>p_h = 22, p_d = 11, p_a = 1, p_k = 1, p_w = 4, sig_size = 292,
           sig_time = 2021, ver_time = 279\<rparr>], [])))) < 296"
proof -
  let ?p1 = "\<lparr>p_h = 22, p_d = 11, p_a = 1, p_k = 1, p_w = 4, sig_size = 292,
           sig_time = 2021, ver_time = 279\<rparr>"
  let ?p2 = "\<lparr>p_h = 22, p_d = 11, p_a = 1, p_k = 2, p_w = 4, sig_size = 296,
           sig_time = 2026, ver_time = 281\<rparr>"
  let ?p3 = "\<lparr>p_h = 22, p_d = 11, p_a = 1, p_k = 3, p_w = 4, sig_size = 300,
           sig_time = 2031, ver_time = 283\<rparr>"
  let ?q = "\<lparr>p_h = 22, p_d = 11, p_a = 1, p_k = 2, p_w = 16, sig_size = 296,
           sig_time = 2026, ver_time = 281\<rparr>"
  let ?qs = "([?q], [?p1], []) :: queues"
  note T = frontier_smallest_signature_first [where chk = low_overuse_check
      and csl = low_overuse_level and heap = 1000 and sec_level = 16 and num_sig = 5
      and test_sec_level = 8 and sign_op = 2030 and max_s = 0 and d_restrict = 11
      and h_restrict = 2 and a_restrict = 1]
  note T1 = T [THEN conjunct1] and T2 = T [THEN conjunct2, THEN conjunct1]
    and T3 = T [THEN conjunct2, THEN conjunct2]
  have rng: "(0::int) \<le> 16" "(16::int) \<le> 65536" by simp_all
  have hyp: "(0::int) \<le> 16 \<and> (16::int) \<le> 65536 \<and>
      (\<forall>H T K. 0 \<le> H \<and> H \<le> 255 \<and> 0 \<le> T \<and> T \<le> 255 \<and> 0 \<le> K \<and> K \<le> 255 \<longrightarrow>
         (\<exists>n. 0 \<le> n \<and> n \<le> 21474835 \<and>
            low_overuse_level (real_of_int (n + 1)) H T K < real (unat (8 :: 32 word))))"
    using rng low_overuse_level_falls [of 8] by (intro conjI)
  from T1 hyp have ret: "\<exists>r. do_search low_overuse_check low_overuse_level 1000 16 5 8 2030 0
      11 2 1 = Some r" by (rule mp)
  have run: "do_search low_overuse_check low_overuse_level 1000 16 5 8 2030 0 11 2 1
      = Some (Inr [?p1, ?p2, ?p3])"
    by (rule example_frontier) simp
  from T2 run have s: "sorted_wrt (\<lambda>x y. sig_size x \<le> sig_size y) [?p1, ?p2, ?p3]" by blast
  have w: "snd (pick_winner ?qs) = 1" by (simp add: pick_winner_def)
  have ne: "fst ?qs \<noteq> [] \<or> fst (snd ?qs) \<noteq> [] \<or> snd (snd ?qs) \<noteq> []" by simp
  have c: "(0 :: nat) < snd (pick_winner ?qs) \<and> queue_of 0 ?qs \<noteq> []"
    by (simp add: w queue_of_def)
  from T3 ne c have "sig_size (hd (fst (pick_winner ?qs))) < sig_size (hd (queue_of 0 ?qs))"
    by blast
  then have l: "sig_size (hd (fst (pick_winner ?qs))) < 296" by (simp add: queue_of_def)
  from rng ret run s w l show ?thesis by blast
qed

text \<open>
  A run with budget 5068 and FORS height 8, in which six parameter sets are admitted and
  four are listed. The first one listed (\<open>w = 16\<close>, one FORS tree, size 196) has the
  score 2200 and lifts all three thresholds from 0 to 2200. The next one popped
  (\<open>w = 8\<close>, one FORS tree, size 240) has the same score 2200, which does not exceed the
  threshold of its class: it is dropped, and so is the \<open>w = 4\<close> set with one FORS tree
  (size 306) later on. The four listed sets have the scores 2200, 3000, 3000 and 3800,
  the two of score 3000 in classes 2 and 1, in this order.
\<close>

theorem frontier_overuse_strictly_better_witness:
  "(0::int) \<le> 16 \<and> (16::int) \<le> 65536 \<and>
   (\<exists>r. do_search low_overuse_check low_overuse_level 1000 16 5 8 5068 0 11 2 8 = Some r) \<and>
   do_search low_overuse_check low_overuse_level 1000 16 5 8 5068 0 11 2 8 = Some (Inr
     [\<lparr>p_h = 22, p_d = 11, p_a = 8, p_k = 1, p_w = 16, sig_size = 196,
           sig_time = 5071, ver_time = 572\<rparr>,
      \<lparr>p_h = 22, p_d = 11, p_a = 8, p_k = 2, p_w = 8, sig_size = 258,
           sig_time = 4430, ver_time = 405\<rparr>,
      \<lparr>p_h = 22, p_d = 11, p_a = 8, p_k = 2, p_w = 4, sig_size = 324,
           sig_time = 3550, ver_time = 295\<rparr>,
      \<lparr>p_h = 22, p_d = 11, p_a = 8, p_k = 3, p_w = 4, sig_size = 342,
           sig_time = 4317, ver_time = 304\<rparr>]) \<and>
   overuse_ordered low_overuse_level 8
     [\<lparr>p_h = 22, p_d = 11, p_a = 8, p_k = 1, p_w = 16, sig_size = 196,
           sig_time = 5071, ver_time = 572\<rparr>,
      \<lparr>p_h = 22, p_d = 11, p_a = 8, p_k = 2, p_w = 8, sig_size = 258,
           sig_time = 4430, ver_time = 405\<rparr>,
      \<lparr>p_h = 22, p_d = 11, p_a = 8, p_k = 2, p_w = 4, sig_size = 324,
           sig_time = 3550, ver_time = 295\<rparr>,
      \<lparr>p_h = 22, p_d = 11, p_a = 8, p_k = 3, p_w = 4, sig_size = 342,
           sig_time = 4317, ver_time = 304\<rparr>] \<and>
   overuse_score low_overuse_level 8
     \<lparr>p_h = 22, p_d = 11, p_a = 8, p_k = 1, p_w = 16, sig_size = 196,
           sig_time = 5071, ver_time = 572\<rparr> = Some 2200 \<and>
   overuse_score low_overuse_level 8
     \<lparr>p_h = 22, p_d = 11, p_a = 8, p_k = 1, p_w = 8, sig_size = 240,
           sig_time = 3663, ver_time = 396\<rparr> = Some 2200 \<and>
   snd (pick_winner
     ([],
      [\<lparr>p_h = 22, p_d = 11, p_a = 8, p_k = 1, p_w = 4, sig_size = 306,
           sig_time = 2783, ver_time = 286\<rparr>,
       \<lparr>p_h = 22, p_d = 11, p_a = 8, p_k = 2, p_w = 4, sig_size = 324,
           sig_time = 3550, ver_time = 295\<rparr>,
       \<lparr>p_h = 22, p_d = 11, p_a = 8, p_k = 3, p_w = 4, sig_size = 342,
           sig_time = 4317, ver_time = 304\<rparr>],
      [\<lparr>p_h = 22, p_d = 11, p_a = 8, p_k = 1, p_w = 8, sig_size = 240,
           sig_time = 3663, ver_time = 396\<rparr>,
       \<lparr>p_h = 22, p_d = 11, p_a = 8, p_k = 2, p_w = 8, sig_size = 258,
           sig_time = 4430, ver_time = 405\<rparr>])) = 2 \<and>
   select_loop low_overuse_level 8 0
     ([],
      [\<lparr>p_h = 22, p_d = 11, p_a = 8, p_k = 1, p_w = 4, sig_size = 306,
           sig_time = 2783, ver_time = 286\<rparr>,
       \<lparr>p_h = 22, p_d = 11, p_a = 8, p_k = 2, p_w = 4, sig_size = 324,
           sig_time = 3550, ver_time = 295\<rparr>,
       \<lparr>p_h = 22, p_d = 11, p_a = 8, p_k = 3, p_w = 4, sig_size = 342,
           sig_time = 4317, ver_time = 304\<rparr>],
      [\<lparr>p_h = 22, p_d = 11, p_a = 8, p_k = 1, p_w = 8, sig_size = 240,
           sig_time = 3663, ver_time = 396\<rparr>,
       \<lparr>p_h = 22, p_d = 11, p_a = 8, p_k = 2, p_w = 8, sig_size = 258,
           sig_time = 4430, ver_time = 405\<rparr>])
     ([2200, 2200, 2200], [0, 0, 0])
     [\<lparr>p_h = 22, p_d = 11, p_a = 8, p_k = 1, p_w = 16, sig_size = 196,
           sig_time = 5071, ver_time = 572\<rparr>]
   = select_loop low_overuse_level 8 0
     ([],
      [\<lparr>p_h = 22, p_d = 11, p_a = 8, p_k = 1, p_w = 4, sig_size = 306,
           sig_time = 2783, ver_time = 286\<rparr>,
       \<lparr>p_h = 22, p_d = 11, p_a = 8, p_k = 2, p_w = 4, sig_size = 324,
           sig_time = 3550, ver_time = 295\<rparr>,
       \<lparr>p_h = 22, p_d = 11, p_a = 8, p_k = 3, p_w = 4, sig_size = 342,
           sig_time = 4317, ver_time = 304\<rparr>],
      [\<lparr>p_h = 22, p_d = 11, p_a = 8, p_k = 2, p_w = 8, sig_size = 258,
           sig_time = 4430, ver_time = 405\<rparr>])
     ([2200, 2200, 2200], [0, 0, 0])
     [\<lparr>p_h = 22, p_d = 11, p_a = 8, p_k = 1, p_w = 16, sig_size = 196,
           sig_time = 5071, ver_time = 572\<rparr>] \<and>
   fst (update_levels 0 2200 0 ([0, 0, 0], [0, 0, 0])) ! 2 = 2200 \<and>
   fst (update_levels 2 3000 0 ([2200, 2200, 2200], [0, 0, 0])) ! 1 = 2200"
proof -
  let ?q16 = "\<lparr>p_h = 22, p_d = 11, p_a = 8, p_k = 1, p_w = 16, sig_size = 196,
           sig_time = 5071, ver_time = 572\<rparr>"
  let ?a1 = "\<lparr>p_h = 22, p_d = 11, p_a = 8, p_k = 1, p_w = 4, sig_size = 306,
           sig_time = 2783, ver_time = 286\<rparr>"
  let ?a2 = "\<lparr>p_h = 22, p_d = 11, p_a = 8, p_k = 2, p_w = 4, sig_size = 324,
           sig_time = 3550, ver_time = 295\<rparr>"
  let ?a3 = "\<lparr>p_h = 22, p_d = 11, p_a = 8, p_k = 3, p_w = 4, sig_size = 342,
           sig_time = 4317, ver_time = 304\<rparr>"
  let ?b1 = "\<lparr>p_h = 22, p_d = 11, p_a = 8, p_k = 1, p_w = 8, sig_size = 240,
           sig_time = 3663, ver_time = 396\<rparr>"
  let ?b2 = "\<lparr>p_h = 22, p_d = 11, p_a = 8, p_k = 2, p_w = 8, sig_size = 258,
           sig_time = 4430, ver_time = 405\<rparr>"
  let ?qs = "([], [?a1, ?a2, ?a3], [?b1, ?b2]) :: queues"
  let ?lv = "([2200, 2200, 2200], [0, 0, 0]) :: int list \<times> int list"
  note T = frontier_overuse_strictly_better [where chk = low_overuse_check
      and csl = low_overuse_level and heap = 1000 and sec_level = 16 and num_sig = 5
      and test_sec_level = 8 and sign_op = 5068 and max_s = 0 and d_restrict = 11
      and h_restrict = 2 and a_restrict = 8]
  note T1 = T [THEN conjunct1] and T2 = T [THEN conjunct2, THEN conjunct1]
    and T3 = T [THEN conjunct2, THEN conjunct2, THEN conjunct1]
    and T4 = T [THEN conjunct2, THEN conjunct2, THEN conjunct2]
  have rng: "(0::int) \<le> 16" "(16::int) \<le> 65536" by simp_all
  have hyp: "(0::int) \<le> 16 \<and> (16::int) \<le> 65536 \<and>
      (\<forall>H T K. 0 \<le> H \<and> H \<le> 255 \<and> 0 \<le> T \<and> T \<le> 255 \<and> 0 \<le> K \<and> K \<le> 255 \<longrightarrow>
         (\<exists>n. 0 \<le> n \<and> n \<le> 21474835 \<and>
            low_overuse_level (real_of_int (n + 1)) H T K < real (unat (8 :: 32 word))))"
    using rng low_overuse_level_falls [of 8] by (intro conjI)
  from T1 hyp have ret: "\<exists>r. do_search low_overuse_check low_overuse_level 1000 16 5 8 5068 0
      11 2 8 = Some r" by (rule mp)
  have run: "do_search low_overuse_check low_overuse_level 1000 16 5 8 5068 0 11 2 8
      = Some (Inr [?q16, ?b2, ?a2, ?a3])"
    by (rule discard_frontier)
  from T2 run have o: "overuse_ordered low_overuse_level 8 [?q16, ?b2, ?a2, ?a3]" by blast
  have s1: "overuse_score low_overuse_level 8 ?q16 = Some 2200"
    and s2: "overuse_score low_overuse_level 8 ?b1 = Some 2200"
    by (simp_all add: overuse_score_def discard_scores)
  have w: "snd (pick_winner ?qs) = 2" and p: "fst (pick_winner ?qs) = [?b1, ?b2]"
    by (simp_all add: pick_winner_def)
  have d1: "fst ?qs \<noteq> [] \<or> fst (snd ?qs) \<noteq> [] \<or> snd (snd ?qs) \<noteq> []" by simp
  have d2: "snd ?lv ! snd (pick_winner ?qs) = 0" by (simp add: w)
  have d3: "overuse_score low_overuse_level 8 (hd (fst (pick_winner ?qs))) = Some 2200"
    by (simp add: p s2)
  have d4: "2200 \<le> fst ?lv ! snd (pick_winner ?qs)" by (simp add: w)
  from d1 d2 d3 d4 have d: "(fst ?qs \<noteq> [] \<or> fst (snd ?qs) \<noteq> [] \<or> snd (snd ?qs) \<noteq> []) \<and>
      snd ?lv ! snd (pick_winner ?qs) = 0 \<and>
      overuse_score low_overuse_level 8 (hd (fst (pick_winner ?qs))) = Some 2200 \<and>
      2200 \<le> fst ?lv ! snd (pick_winner ?qs)" by (intro conjI)
  from T3 [THEN spec, THEN spec, THEN spec, THEN spec, THEN mp, OF d, of "[?q16]"]
  have "select_loop low_overuse_level 8 0 ?qs ?lv [?q16] =
      select_loop low_overuse_level 8 0
        (pull_winner (snd (pick_winner ?qs)) (fst (pick_winner ?qs)) ?qs) ?lv [?q16]" .
  then have dis: "select_loop low_overuse_level 8 0 ?qs ?lv [?q16] =
      select_loop low_overuse_level 8 0 ([], [?a1, ?a2, ?a3], [?b2]) ?lv [?q16]"
    by (simp only: w p pull_winner_def) simp
  have l1: "length (fst (([0, 0, 0], [0, 0, 0]) :: int list \<times> int list)) = 3 \<and> (2::nat) < 3"
    by simp
  from T4 [THEN spec, THEN spec, THEN spec, THEN spec, THEN spec, THEN mp, OF l1, of 0 2200 0]
  have u1: "fst (update_levels 0 2200 0 ([0, 0, 0], [0, 0, 0])) ! 2 = 2200" by simp
  have l2: "length (fst ?lv) = 3 \<and> (1::nat) < 3" by simp
  from T4 [THEN spec, THEN spec, THEN spec, THEN spec, THEN spec, THEN mp, OF l2, of 2 3000 0]
  have u2: "fst (update_levels 2 3000 0 ?lv) ! 1 = 2200" by simp
  from rng ret run o s1 s2 w dis u1 u2 show ?thesis by blast
qed

section \<open>Single-precision arithmetic on whole numbers below 2 ^ 24\<close>

lemma float_exp_large:
  "2 ^ 24 \<le> n \<Longrightarrow> 1 \<le> float_exp n \<and> 2 ^ 23 \<le> n div 2 ^ float_exp n"
proof (induction n rule: float_exp.induct)
  case (1 n)
  then have e: "float_exp n = 1 + float_exp (n div 2)"
    by (subst float_exp.simps) simp
  show ?case
  proof (cases "n div 2 < 2 ^ 24")
    case True
    then have "float_exp (n div 2) = 0" by (subst float_exp.simps) simp
    with e have "float_exp n = 1" by simp
    moreover from "1.prems" have "2 ^ 23 \<le> n div 2" by simp
    ultimately show ?thesis by simp
  next
    case False
    with "1.IH" "1.prems" have "2 ^ 23 \<le> (n div 2) div 2 ^ float_exp (n div 2)" by simp
    then have "2 ^ 23 \<le> n div 2 ^ float_exp n"
      unfolding e by (simp add: div_mult2_eq)
    with e show ?thesis by simp
  qed
qed

lemma fl_nat_large: "2 ^ 24 \<le> n \<Longrightarrow> 2 ^ 24 \<le> fl_nat n"
proof -
  assume n: "2 ^ 24 \<le> n"
  define e where "e = float_exp n"
  define q where "q = n div 2 ^ e"
  from float_exp_large [OF n] have e1: "1 \<le> e" and q: "2 ^ 23 \<le> q"
    by (simp_all add: e_def q_def)
  have "(2::nat) ^ 1 \<le> 2 ^ e" using e1 by (intro power_increasing) simp_all
  then have "(2::nat) \<le> 2 ^ e" by simp
  with q have "2 ^ 23 * 2 \<le> q * 2 ^ e" by (rule mult_le_mono)
  then have a: "2 ^ 24 \<le> q * 2 ^ e" by simp
  have b: "q * 2 ^ e \<le> (q + 1) * 2 ^ e" by simp
  have "fl_nat n = q * 2 ^ e \<or> fl_nat n = (q + 1) * 2 ^ e"
    by (simp add: fl_nat_def Let_def e_def q_def)
  with a b show ?thesis by auto
qed

lemma fl_small:
  assumes "0 \<le> x" "fl x < 2 ^ 24"
  shows "fl x = x"
proof (rule ccontr)
  assume ne: "fl x \<noteq> x"
  have "\<not> \<bar>x\<bar> < 2 ^ 24" using ne fl_exact by blast
  with assms(1) have "2 ^ 24 \<le> nat \<bar>x\<bar>" by simp
  then have "2 ^ 24 \<le> fl_nat (nat \<bar>x\<bar>)" by (rule fl_nat_large)
  moreover from assms(1) \<open>\<not> \<bar>x\<bar> < 2 ^ 24\<close> have "sgn x = 1" by simp
  ultimately have "2 ^ 24 \<le> fl x" by (simp add: fl_def)
  with assms(2) show False by simp
qed

lemma fl_nonneg: "0 \<le> x \<Longrightarrow> 0 \<le> fl x"
  by (simp add: fl_def sgn_if)

lemma fl_lower:
  assumes "0 \<le> c" "c \<le> x" "c \<le> 2 ^ 24"
  shows "c \<le> fl x"
proof (cases "\<bar>x\<bar> < 2 ^ 24")
  case True
  then show ?thesis using assms(2) by (simp add: fl_exact)
next
  case False
  with assms(1,2) have "2 ^ 24 \<le> nat \<bar>x\<bar>" by simp
  then have "2 ^ 24 \<le> fl_nat (nat \<bar>x\<bar>)" by (rule fl_nat_large)
  moreover from assms(1,2) False have "sgn x = 1" by simp
  ultimately have "2 ^ 24 \<le> fl x" by (simp add: fl_def)
  with assms(3) show ?thesis by simp
qed

lemma hypertree_cost_exact:
  assumes d: "1 \<le> d" "d < 30"
    and x: "2 \<le> uint (cost_ots + 1)" "uint (cost_ots + 1) < 2 ^ 24"
    and nt: "4 \<le> uint node_tree"
    and lt: "hypertree_cost d cost_ots node_tree < B" "B \<le> 2 ^ 24 - 1"
  shows "hypertree_cost d cost_ots node_tree = d * (uint (cost_ots + 1) * uint node_tree - 1)"
    and "0 \<le> hypertree_cost d cost_ots node_tree"
proof -
  define X where "X = uint (cost_ots + 1)"
  define N where "N = fl (uint node_tree)"
  define Y where "Y = fl (X * N)"
  define Z where "Z = fl (Y - 1)"
  have fd: "fl d = d" using d by (intro fl_exact) simp
  have f1: "fl 1 = 1" by (intro fl_exact) simp
  have fx: "fl X = X" using x by (intro fl_exact) (simp add: X_def)
  have ch: "hypertree_cost d cost_ots node_tree = fl (d * Z)"
    by (simp add: hypertree_cost_def fd f1 fx [unfolded X_def] Z_def Y_def N_def X_def)
  have N1: "1 \<le> N" unfolding N_def using nt by (intro fl_lower) simp_all
  have "1 * 1 \<le> X * N" using x N1 unfolding X_def by (intro mult_mono) simp_all
  then have XN: "1 \<le> X * N" by simp
  then have Y1: "1 \<le> Y" unfolding Y_def by (intro fl_lower) simp_all
  then have Z0: "0 \<le> Z" unfolding Z_def by (intro fl_nonneg) simp
  then have dZ0: "0 \<le> d * Z" using d by simp
  from lt ch have "fl (d * Z) < 2 ^ 24" by simp
  with dZ0 have e1: "fl (d * Z) = d * Z" by (rule fl_small)
  with lt ch have dZ: "d * Z < 2 ^ 24" by simp
  have "Z * 1 \<le> Z * d" using d Z0 by (intro mult_left_mono) simp_all
  with dZ have Zs: "Z < 2 ^ 24" by (simp add: mult.commute)
  have e2: "Z = Y - 1" unfolding Z_def using Y1 Zs [unfolded Z_def] by (intro fl_small) simp_all
  from dZ lt ch e1 have "d * Z < 2 ^ 24 - 1" by simp
  with \<open>Z * 1 \<le> Z * d\<close> have "Z < 2 ^ 24 - 1" by (simp add: mult.commute)
  with e2 have Ys: "Y < 2 ^ 24" by simp
  have e3: "Y = X * N" unfolding Y_def using XN Ys [unfolded Y_def] by (intro fl_small) simp_all
  have "N * 1 \<le> N * X" using x N1 unfolding X_def by (intro mult_left_mono) simp_all
  with e3 Ys have Ns: "N < 2 ^ 24" by (simp add: mult.commute)
  have e4: "N = uint node_tree" unfolding N_def using Ns [unfolded N_def]
    by (intro fl_small) simp_all
  show "hypertree_cost d cost_ots node_tree = d * (uint (cost_ots + 1) * uint node_tree - 1)"
    using ch e1 e2 e3 e4 by (simp add: X_def)
  show "0 \<le> hypertree_cost d cost_ots node_tree" using ch e1 dZ0 by simp
qed

section \<open>The recorded signature size and signing cost\<close>

lemma unat_add_bounded:
  "unat (x :: 32 word) \<le> m \<Longrightarrow> unat (y :: 32 word) \<le> n \<Longrightarrow> m + n < 2 ^ 32 \<Longrightarrow>
   unat (x + y) = unat x + unat y \<and> unat (x + y) \<le> m + n"
  by (simp add: unat_word_ariths)

lemma unat_mult_bounded:
  assumes "unat (x :: 32 word) \<le> m" "unat (y :: 32 word) \<le> n" "m * n < 2 ^ 32"
  shows "unat (x * y) = unat x * unat y \<and> unat (x * y) \<le> m * n"
proof -
  from assms(1,2) have le: "unat x * unat y \<le> m * n" by (rule mult_le_mono)
  with assms(3) have "unat x * unat y < 2 ^ 32" by simp
  then have "unat (x * y) = unat x * unat y" by (simp add: unat_word_ariths)
  with le show ?thesis by simp
qed

lemma checksum_loop_bound_aux:
  "checksum_loop w max_sum cd prd = Some r \<Longrightarrow>
   (\<forall>j. 2 \<le> unat w \<and> unat w \<le> 256 \<and> unat max_sum \<le> 2 ^ 24 \<and> 2 ^ 24 \<le> unat prd * 2 ^ j \<and>
      unat cd + j < 2 ^ 32 \<longrightarrow> unat r \<le> unat cd + j)"
proof (induction rule: checksum_loop.raw_induct [rotated 1, consumes 1])
  case (1 checksum_loop' w max_sum cd prd r)
  show ?case
  proof (intro allI impI)
    fix j
    assume a: "2 \<le> unat w \<and> unat w \<le> 256 \<and> unat max_sum \<le> 2 ^ 24 \<and> 2 ^ 24 \<le> unat prd * 2 ^ j \<and>
      unat cd + j < 2 ^ 32"
    show "unat r \<le> unat cd + j"
    proof (cases "prd < max_sum")
      case False
      with 1(2) show ?thesis by simp
    next
      case True
      with 1(2) have r: "checksum_loop' w max_sum (cd + 1) (prd * w) = Some r" by simp
      from True a have small: "unat prd < 2 ^ 24" by (simp add: word_less_nat_alt)
      with a have "j \<noteq> 0" by (cases j) auto
      then obtain j' where j: "j = Suc j'" by (cases j) auto
      have b1: "unat prd \<le> 16777215" using small by simp
      have b2: "unat w \<le> 256" using a by simp
      have b3: "(16777215 :: nat) * 256 < 2 ^ 32" by simp
      from unat_mult_bounded [OF b1 b2 b3] have pm: "unat (prd * w) = unat prd * unat w"
        by blast
      have "unat prd * 2 \<le> unat prd * unat w" using a by simp
      then have le: "unat prd * 2 * 2 ^ j' \<le> unat prd * unat w * 2 ^ j'" by (rule mult_le_mono1)
      from a j have "2 ^ 24 \<le> unat prd * 2 * 2 ^ j'" by (simp add: mult.assoc)
      also note le
      finally have big: "2 ^ 24 \<le> unat (prd * w) * 2 ^ j'" by (simp only: pm)
      from a j have cd1: "unat (cd + 1) = unat cd + 1" by (simp add: unat_word_ariths)
      from 1(1) [OF r, THEN spec, of j'] a big cd1 j show ?thesis by simp
    qed
  qed
qed

lemma checksum_loop_bound:
  assumes "checksum_loop (2 ^ lw) max_sum 1 (2 ^ lw) = Some r" "2 \<le> lw" "lw \<le> 8"
    "unat max_sum \<le> 2 ^ 24"
  shows "unat r \<le> 23"
proof -
  have w: "unat (2 ^ lw :: 32 word) = 2 ^ lw" using assms(3) by (intro unat_two_power) simp
  have "(2::nat) ^ 2 \<le> 2 ^ lw" using assms(2) by (intro power_increasing) simp_all
  then have lo: "(4::nat) \<le> 2 ^ lw" by simp
  have "(2::nat) ^ lw \<le> 2 ^ 8" using assms(3) by (intro power_increasing) simp_all
  then have hi: "(2::nat) ^ lw \<le> 256" by simp
  from lo have "4 * 2 ^ 22 \<le> (2::nat) ^ lw * 2 ^ 22" by (rule mult_le_mono1)
  then have big: "2 ^ 24 \<le> unat (2 ^ lw :: 32 word) * 2 ^ 22" by (simp add: w)
  from checksum_loop_bound_aux [OF assms(1), THEN spec, of 22] lo hi assms(4) big w
  show ?thesis by simp
qed

lemma uint_word_of_int_small:
  "0 \<le> x \<Longrightarrow> x < 2 ^ 32 \<Longrightarrow> uint (word_of_int x :: 32 word) = x"
  by (simp add: uint_word_of_int take_bit_int_eq_self)

lemma hash_digits_unat:
  assumes "0 < sec_level" "sec_level \<le> 512" "2 \<le> lw" "lw \<le> 8"
  shows "unat ((word_of_int sec_level + of_nat lw - 1) div of_nat lw :: 32 word)
     = (nat sec_level + lw - 1) div lw"
proof -
  have l: "unat (of_nat lw :: 32 word) = lw" using assms(4) by (simp add: unat_of_nat)
  have s: "unat (word_of_int sec_level :: 32 word) = nat sec_level"
    using assms(1,2) by (intro unat_word_of_int_small) simp_all
  have y: "unat (word_of_int sec_level + of_nat lw :: 32 word) = nat sec_level + lw"
    using assms(1,2,4) s l by (simp add: unat_word_ariths)
  have "word_of_int sec_level + of_nat lw \<noteq> (0 :: 32 word)"
  proof
    assume "word_of_int sec_level + of_nat lw = (0 :: 32 word)"
    with y have "nat sec_level + lw = 0" by simp
    with assms(3) show False by simp
  qed
  then have "unat (word_of_int sec_level + of_nat lw - 1 :: 32 word) = nat sec_level + lw - 1"
    using y by (simp add: unat_minus_one)
  then show ?thesis by (simp add: unat_div l)
qed

lemma two_power_bounds:
  assumes "2 \<le> lw" "lw \<le> 8"
  shows "(4::nat) \<le> 2 ^ lw" "(2::nat) ^ lw \<le> 256"
proof -
  have "(2::nat) ^ 2 \<le> 2 ^ lw" using assms(1) by (intro power_increasing) simp_all
  then show "(4::nat) \<le> 2 ^ lw" by simp
  have "(2::nat) ^ lw \<le> 2 ^ 8" using assms(2) by (intro power_increasing) simp_all
  then show "(2::nat) ^ lw \<le> 256" by simp
qed

lemma cost_ots_unat:
  assumes sec: "0 < sec_level" "sec_level \<le> 512" and lw: "2 \<le> lw" "lw \<le> 8"
    and cd: "unat (cd :: 32 word) \<le> 23"
  shows "unat ((word_of_int sec_level + of_nat lw - 1) div of_nat lw + cd)
       = (nat sec_level + lw - 1) div lw + unat cd"
    and "unat ((word_of_int sec_level + of_nat lw - 1) div of_nat lw + cd) \<le> 542"
    and "unat (1 + ((word_of_int sec_level + of_nat lw - 1) div of_nat lw + cd) * 2 ^ lw + 1)
       = 1 + ((nat sec_level + lw - 1) div lw + unat cd) * 2 ^ lw + 1"
    and "unat (1 + ((word_of_int sec_level + of_nat lw - 1) div of_nat lw + cd) * 2 ^ lw + 1)
       \<le> 138754"
proof -
  let ?hd = "(word_of_int sec_level + of_nat lw - 1) div of_nat lw :: 32 word"
  have hd: "unat ?hd = (nat sec_level + lw - 1) div lw" by (rule hash_digits_unat [OF sec lw])
  have "(nat sec_level + lw - 1) div lw \<le> nat sec_level + lw - 1" by (rule div_le_dividend)
  also have "\<dots> \<le> 519" using sec lw by simp
  finally have hdb: "unat ?hd \<le> 519" by (simp add: hd)
  have n1: "(519::nat) + 23 < 2 ^ 32" by simp
  note A = unat_add_bounded [OF hdb cd n1]
  from A show wd: "unat (?hd + cd) = (nat sec_level + lw - 1) div lw + unat cd"
    by (simp add: hd)
  from A show wdb: "unat (?hd + cd) \<le> 542" by simp
  have w: "unat (2 ^ lw :: 32 word) = 2 ^ lw" using lw by (intro unat_two_power) simp
  have wb: "unat (2 ^ lw :: 32 word) \<le> 256" using two_power_bounds [OF lw] by (simp add: w)
  have n2: "(542::nat) * 256 < 2 ^ 32" by simp
  note B = unat_mult_bounded [OF wdb wb n2]
  have one: "unat (1 :: 32 word) \<le> 1" by simp
  have n3: "(1::nat) + 542 * 256 < 2 ^ 32" by simp
  from B have Bb: "unat ((?hd + cd) * 2 ^ lw) \<le> 542 * 256" by blast
  note C = unat_add_bounded [OF one Bb n3]
  from C have Cb: "unat (1 + (?hd + cd) * 2 ^ lw) \<le> 1 + 542 * 256" by blast
  have n4: "(1::nat) + 542 * 256 + 1 < 2 ^ 32" by simp
  note D = unat_add_bounded [OF Cb one n4]
  from D C B show "unat (1 + (?hd + cd) * 2 ^ lw + 1)
       = 1 + ((nat sec_level + lw - 1) div lw + unat cd) * 2 ^ lw + 1"
    by (simp add: wd w)
  from D show "unat (1 + (?hd + cd) * 2 ^ lw + 1) \<le> 138754" by simp
qed

lemma node_tree_uint:
  assumes "2 \<le> hm" "hm < 32"
  shows "uint (word_of_int (push_bit (nat hm) 1) :: 32 word) = 2 ^ nat hm"
    and "(4::int) \<le> 2 ^ nat hm"
proof -
  have "nat hm < 32" using assms by simp
  then have "unat (2 ^ nat hm :: 32 word) = 2 ^ nat hm" by (rule unat_two_power)
  then show "uint (word_of_int (push_bit (nat hm) 1) :: 32 word) = 2 ^ nat hm"
    by (simp add: uint_nat)
  have "(2::int) ^ 2 \<le> 2 ^ nat hm" using assms by (intro power_increasing) simp_all
  then show "(4::int) \<le> 2 ^ nat hm" by simp
qed

lemma cost_fors_tree_uint:
  assumes "a < (30 :: 32 word)"
  shows "uint (word_of_int (3 * push_bit (unat a) 1 - 1) :: 32 word) = 3 * 2 ^ unat a - 1"
    and "int (formula_cost_fors_tree (unat a)) = 3 * 2 ^ unat a - 1"
proof -
  from assms have "unat a < 30" by (simp add: word_less_nat_alt)
  then have "(2::int) ^ unat a \<le> 2 ^ 29" by (intro power_increasing) simp_all
  moreover have "(1::int) \<le> 2 ^ unat a" by simp
  ultimately show "uint (word_of_int (3 * push_bit (unat a) 1 - 1) :: 32 word) = 3 * 2 ^ unat a - 1"
    by (intro trans [OF _ uint_word_of_int_small [of "3 * 2 ^ unat a - 1"]]) simp_all
  have "(1::nat) \<le> 2 ^ unat a" by simp
  then show "int (formula_cost_fors_tree (unat a)) = 3 * 2 ^ unat a - 1"
    by (simp add: formula_cost_fors_tree_def of_nat_diff)
qed

lemma budget_exact:
  assumes ch: "0 \<le> ch" and so: "uint (sign_op :: 32 word) \<le> 2 ^ 24 - 4"
    and b: "\<not> fl (ch + fl (uint (x :: 32 word))) > fl (uint sign_op)"
  shows "ch + uint x \<le> uint sign_op" and "fl (uint x) = uint x"
proof -
  have fs: "fl (uint sign_op) = uint sign_op" using so by (intro fl_exact) simp
  have nn: "0 \<le> ch + fl (uint x)" using ch fl_nonneg [of "uint x"] by simp
  from b fs so have "fl (ch + fl (uint x)) < 2 ^ 24" by simp
  with nn have e: "fl (ch + fl (uint x)) = ch + fl (uint x)" by (rule fl_small)
  with b fs have le: "ch + fl (uint x) \<le> uint sign_op" by simp
  with ch so have "fl (uint x) < 2 ^ 24" by simp
  then show x: "fl (uint x) = uint x" by (intro fl_small) simp_all
  with le show "ch + uint x \<le> uint sign_op" by simp
qed

lemma sig_size_unat:
  assumes sec: "0 < sec_level" "sec_level \<le> 512"
    and wd: "unat (wd :: 32 word) \<le> 542"
    and hm: "2 \<le> hm" "hm < 32" and d: "1 \<le> d" "d < 30"
    and a: "a < (30 :: 32 word)" and k: "k < MAX_K"
  shows "unat (word_of_int ((sec_level + 7) sdiv 8) *
           (1 + k * (a + 1) + word_of_int d * (wd + word_of_int hm)) :: 32 word)
     = formula_sig_size (nat ((sec_level + 7) div 8)) (unat wd) (nat hm) (nat d) (unat a) (unat k)"
proof -
  have sd: "(sec_level + 7) sdiv 8 = (sec_level + 7) div 8"
    using sec by (simp add: signed_divide_int_def)
  have "(sec_level + 7) div 8 \<le> 64" using sec by simp
  moreover have "0 \<le> (sec_level + 7) div 8" using sec by simp
  ultimately have hs: "unat (word_of_int ((sec_level + 7) sdiv 8) :: 32 word)
      = nat ((sec_level + 7) div 8)"
    and hsb: "unat (word_of_int ((sec_level + 7) sdiv 8) :: 32 word) \<le> 64"
    by (simp_all add: sd unat_word_of_int_small)
  have dw: "unat (word_of_int d :: 32 word) = nat d" using d by (intro unat_word_of_int_small) simp_all
  have dwb: "unat (word_of_int d :: 32 word) \<le> 29" using d dw by simp
  have hw: "unat (word_of_int hm :: 32 word) = nat hm" using hm by (intro unat_word_of_int_small) simp_all
  have hwb: "unat (word_of_int hm :: 32 word) \<le> 31" using hm hw by simp
  have ab: "unat a \<le> 29" using a by (simp add: word_less_nat_alt)
  have kb: "unat k \<le> 99" using k by (simp add: MAX_K_def word_less_nat_alt)
  have one: "unat (1 :: 32 word) \<le> 1" by simp
  have n1: "(29::nat) + 1 < 2 ^ 32" by simp
  note A = unat_add_bounded [OF ab one n1]
  from A have Ab: "unat (a + 1) \<le> 29 + 1" by blast
  have n2: "(99::nat) * (29 + 1) < 2 ^ 32" by simp
  note B = unat_mult_bounded [OF kb Ab n2]
  from B have Bb: "unat (k * (a + 1)) \<le> 99 * (29 + 1)" by blast
  have n3: "(1::nat) + 99 * (29 + 1) < 2 ^ 32" by simp
  note C = unat_add_bounded [OF one Bb n3]
  from C have Cb: "unat (1 + k * (a + 1)) \<le> 1 + 99 * (29 + 1)" by blast
  have n4: "(542::nat) + 31 < 2 ^ 32" by simp
  note D = unat_add_bounded [OF wd hwb n4]
  from D have Db: "unat (wd + word_of_int hm) \<le> 542 + 31" by blast
  have n5: "(29::nat) * (542 + 31) < 2 ^ 32" by simp
  note E = unat_mult_bounded [OF dwb Db n5]
  from E have Eb: "unat (word_of_int d * (wd + word_of_int hm)) \<le> 29 * (542 + 31)" by blast
  have n6: "(1::nat) + 99 * (29 + 1) + 29 * (542 + 31) < 2 ^ 32" by simp
  note F = unat_add_bounded [OF Cb Eb n6]
  from F have Fb: "unat (1 + k * (a + 1) + word_of_int d * (wd + word_of_int hm))
      \<le> 1 + 99 * (29 + 1) + 29 * (542 + 31)" by blast
  have n7: "(64::nat) * (1 + 99 * (29 + 1) + 29 * (542 + 31)) < 2 ^ 32" by simp
  note G = unat_mult_bounded [OF hsb Fb n7]
  from G F E D C B A show ?thesis
    by (simp add: formula_sig_size_def hs dw hw)
qed

lemma ucast_small_unat:
  "unat (x :: 32 word) < 256 \<Longrightarrow> unat (ucast x :: 8 word) = unat x"
  "unat (x :: 32 word) < 65536 \<Longrightarrow> unat (ucast x :: 16 word) = unat x"
  by (simp_all add: unsigned_ucast_eq take_bit_nat_eq_self)

lemma unat_word_of_int_small8:
  "0 \<le> x \<Longrightarrow> x < 256 \<Longrightarrow> unat (word_of_int x :: 8 word) = nat x"
  by (simp add: unat_eq_nat_uint uint_word_of_int take_bit_int_eq_self)

lemma formula_cost_hypertree_int:
  "1 \<le> d \<Longrightarrow> int (formula_cost_hypertree w wd h_merkle (nat d))
     = d * (int (1 + wd * w + 1) * 2 ^ h_merkle - 1)"
proof -
  assume d: "1 \<le> d"
  have "(1::nat) * 1 \<le> (1 + wd * w + 1) * 2 ^ h_merkle" by (intro mult_le_mono) simp_all
  then have "1 \<le> (1 + wd * w + 1) * 2 ^ h_merkle" by (simp only: mult_1)
  then have "int ((1 + wd * w + 1) * 2 ^ h_merkle - 1) = int ((1 + wd * w + 1) * 2 ^ h_merkle) - 1"
    by (simp only: of_nat_diff of_nat_1)
  also have "int ((1 + wd * w + 1) * 2 ^ h_merkle) = int (1 + wd * w + 1) * 2 ^ h_merkle"
    by (simp only: of_nat_mult of_nat_power of_nat_numeral)
  finally have E: "int ((1 + wd * w + 1) * 2 ^ h_merkle - 1) = int (1 + wd * w + 1) * 2 ^ h_merkle - 1" .
  have dn: "int (nat d) = d" using d by simp
  show ?thesis
    by (simp only: formula_cost_hypertree_def of_nat_mult [of "nat d"] dn E)
qed

lemma admitted_shape:
  fixes sec_level :: int and sign_op num_sig cd a k :: "32 word" and lw :: nat and hm d :: int
  defines "wdw \<equiv> (word_of_int sec_level + of_nat lw - 1) div of_nat lw + cd"
  defines "WD \<equiv> (nat sec_level + lw - 1) div lw + unat cd"
  defines "ch \<equiv> hypertree_cost d (1 + wdw * 2 ^ lw) (word_of_int (push_bit (nat hm) 1))"
  defines "P \<equiv> new_parameter_set (word_of_int ((sec_level + 7) sdiv 8)) (2 ^ lw) wdw hm (hm * d) d
     ch a (word_of_int (3 * push_bit (unat a) 1 - 1)) k"
  assumes sec: "0 < sec_level" "sec_level \<le> 512" and so: "uint sign_op \<le> 2 ^ 24 - 4"
    and lw: "2 \<le> lw" "lw \<le> 8"
    and cl: "checksum_loop (2 ^ lw)
        ((2 ^ lw - 1) * ((word_of_int sec_level + of_nat lw - 1) div of_nat lw)) 1 (2 ^ lw) = Some cd"
    and hm: "2 \<le> hm" "hm < 32" and d: "1 \<le> d"
    and pt: "passes_tests sec_level num_sig sign_op (1 + wdw * 2 ^ lw)
        (word_of_int (push_bit (nat hm) 1)) (hm * d) d a k"
  shows "unat cd \<le> 23" and "d < 30" and "1 \<le> unat a" and "unat a < 30"
    and "1 \<le> unat k" and "unat k < 100"
    and "unat wdw = WD"
    and "ch = int (formula_cost_hypertree (2 ^ lw) WD (nat hm) (nat d))"
    and "unat (sig_size P)
       = formula_sig_size (nat ((sec_level + 7) div 8)) WD (nat hm) (nat d) (unat a) (unat k)"
    and "unat (sig_time P) = formula_sig_time (formula_cost_hypertree (2 ^ lw) WD (nat hm) (nat d))
         (formula_cost_fors_tree (unat a)) (unat k)"
    and "formula_cost_hypertree (2 ^ lw) WD (nat hm) (nat d)
         + unat k * formula_cost_fors_tree (unat a) \<le> unat sign_op"
    and "unat (p_w P) = 2 ^ lw" and "p_h P = of_nat (nat hm * nat d)" and "unat (p_d P) = nat d"
    and "unat (p_a P) = unat a" and "unat (p_k P) = unat k"
proof -
  let ?cf = "word_of_int (3 * push_bit (unat a) 1 - 1) :: 32 word"
  from pt have dlt: "d < 30" and a1: "1 \<le> unat a" and alt: "a < 30" and k1: "1 \<le> unat k"
    and klt: "k < MAX_K"
    and hb: "\<not> fl (uint sign_op) \<le> ch"
    and bk: "\<not> fl (ch + fl (uint (k * ?cf))) > fl (uint sign_op)"
    and b1: "\<not> fl (ch + fl (uint ?cf)) > fl (uint sign_op)"
    unfolding passes_tests_def ch_def by simp_all
  show "d < 30" by (rule dlt)
  show "1 \<le> unat a" by (rule a1)
  show "1 \<le> unat k" by (rule k1)
  from alt show ab: "unat a < 30" by (simp add: word_less_nat_alt)
  from klt show kb: "unat k < 100" by (simp add: MAX_K_def word_less_nat_alt)
  have w: "unat (2 ^ lw :: 32 word) = 2 ^ lw" using lw by (intro unat_two_power) simp
  have ms: "unat ((2 ^ lw - 1) * ((word_of_int sec_level + of_nat lw - 1) div of_nat lw) :: 32 word)
      \<le> 2 ^ 24"
  proof (rule max_sum_small)
    show "0 \<le> sec_level" "sec_level \<le> 65536" using sec by simp_all
    show "unat (2 ^ lw :: 32 word) \<le> 256" "0 < unat (2 ^ lw :: 32 word)"
      using two_power_bounds [OF lw] by (simp_all add: w)
    show "unat (of_nat lw :: 32 word) \<le> 8" "0 < unat (of_nat lw :: 32 word)"
      using lw by (simp_all add: unat_of_nat)
  qed
  show cdb: "unat cd \<le> 23" by (rule checksum_loop_bound [OF cl lw ms])
  note co = cost_ots_unat [OF sec lw cdb, folded wdw_def WD_def]
  show wd: "unat wdw = WD" by (rule co(1))
  have fs: "fl (uint sign_op) = uint sign_op" using so by (intro fl_exact) simp
  have x1: "uint (1 + wdw * 2 ^ lw + 1) = int (1 + WD * 2 ^ lw + 1)"
    by (simp only: uint_nat co(3))
  have x2: "2 \<le> uint (1 + wdw * 2 ^ lw + 1)" unfolding x1 by simp
  have "1 + WD * 2 ^ lw + 1 \<le> 138754" using co(4) unfolding co(3) .
  then have "int (1 + WD * 2 ^ lw + 1) \<le> int 138754" by (simp only: of_nat_le_iff)
  then have x3: "uint (1 + wdw * 2 ^ lw + 1) < 2 ^ 24" unfolding x1 by simp
  note nt = node_tree_uint [OF hm]
  have nt4: "4 \<le> uint (word_of_int (push_bit (nat hm) 1) :: 32 word)"
    using nt by simp
  have lt: "ch < uint sign_op" using hb fs by simp
  have sob: "uint sign_op \<le> 2 ^ 24 - 1" using so by simp
  note he = hypertree_cost_exact [OF d dlt x2 x3 nt4 lt [unfolded ch_def] sob, folded ch_def]
  have ch0: "0 \<le> ch" by (rule he(2))
  show che: "ch = int (formula_cost_hypertree (2 ^ lw) WD (nat hm) (nat d))"
    by (simp only: he(1) x1 nt(1) formula_cost_hypertree_int [OF d])
  show "unat (sig_size P)
       = formula_sig_size (nat ((sec_level + 7) div 8)) WD (nat hm) (nat d) (unat a) (unat k)"
    using sig_size_unat [OF sec co(2) hm d dlt alt klt]
    by (simp add: P_def new_parameter_set_def wd)
  note cf = cost_fors_tree_uint [OF alt]
  note e1 = budget_exact [OF ch0 so b1]
  have cfi: "uint ?cf = int (formula_cost_fors_tree (unat a))" by (simp only: cf)
  then have cfn: "unat ?cf = formula_cost_fors_tree (unat a)" by (simp only: uint_nat of_nat_eq_iff)
  from e1(1) ch0 so have "uint ?cf \<le> 16777215" by simp
  then have "int (unat ?cf) \<le> int 16777215" by (simp only: uint_nat of_nat_numeral)
  then have cfb: "unat ?cf \<le> 16777215" by (simp only: of_nat_le_iff)
  have kb': "unat k \<le> 99" using kb by simp
  have n1: "(99::nat) * 16777215 < 2 ^ 32" by simp
  from unat_mult_bounded [OF kb' cfb n1]
  have "unat (k * ?cf) = unat k * unat ?cf" by (rule conjunct1)
  then have km: "unat (k * ?cf) = unat k * formula_cost_fors_tree (unat a)" by (simp only: cfn)
  note ek = budget_exact [OF ch0 so bk]
  have ku: "uint (k * ?cf) = int (unat k * formula_cost_fors_tree (unat a))"
    by (simp only: uint_nat km)
  from ek(1) show tot: "formula_cost_hypertree (2 ^ lw) WD (nat hm) (nat d)
         + unat k * formula_cost_fors_tree (unat a) \<le> unat sign_op"
    by (simp only: che uint_nat km of_nat_add [symmetric] of_nat_le_iff)
  have u0: "0 \<le> uint (k * ?cf)" by simp
  from ch0 ek(1) so u0 have "\<bar>3 + ch\<bar> < 2 ^ 24" by linarith
  then have f3: "fl (3 + ch) = 3 + ch" by (rule fl_exact)
  from ch0 ek(1) so u0 have "\<bar>3 + ch + uint (k * ?cf)\<bar> < 2 ^ 24" by linarith
  then have f4: "fl (3 + ch + uint (k * ?cf)) = 3 + ch + uint (k * ?cf)" by (rule fl_exact)
  have "sig_time P = word_of_int (fl (fl (3 + ch) + fl (uint (k * ?cf))))"
    by (simp add: P_def new_parameter_set_def)
  also have "fl (fl (3 + ch) + fl (uint (k * ?cf))) = 3 + ch + uint (k * ?cf)"
    by (simp only: f3 ek(2) f4)
  also have "3 + ch + uint (k * ?cf) = int (formula_sig_time
      (formula_cost_hypertree (2 ^ lw) WD (nat hm) (nat d)) (formula_cost_fors_tree (unat a)) (unat k))"
    by (simp only: ku che formula_sig_time_def of_nat_add of_nat_numeral)
  finally have st: "sig_time P = of_nat (formula_sig_time
      (formula_cost_hypertree (2 ^ lw) WD (nat hm) (nat d)) (formula_cost_fors_tree (unat a)) (unat k))"
    by simp
  have "formula_sig_time (formula_cost_hypertree (2 ^ lw) WD (nat hm) (nat d))
      (formula_cost_fors_tree (unat a)) (unat k) \<le> unat sign_op + 3"
    using tot by (simp add: formula_sig_time_def)
  also have "\<dots> < 2 ^ 32"
  proof -
    from so have "uint sign_op \<le> 16777212" by simp
    then have "int (unat sign_op) \<le> int 16777212" by (simp only: uint_nat of_nat_numeral)
    then have "unat sign_op \<le> 16777212" by (simp only: of_nat_le_iff)
    then show ?thesis by simp
  qed
  finally have "formula_sig_time (formula_cost_hypertree (2 ^ lw) WD (nat hm) (nat d))
      (formula_cost_fors_tree (unat a)) (unat k) < 2 ^ 32" .
  then show "unat (sig_time P) = formula_sig_time
      (formula_cost_hypertree (2 ^ lw) WD (nat hm) (nat d)) (formula_cost_fors_tree (unat a)) (unat k)"
    by (simp add: st unat_of_nat)
  show "unat (p_w P) = 2 ^ lw"
    using two_power_bounds [OF lw] by (simp add: P_def new_parameter_set_def ucast_small_unat w)
  show "p_h P = of_nat (nat hm * nat d)"
    using hm d by (simp add: P_def new_parameter_set_def nat_mult_distrib)
  have "unat (word_of_int d :: 8 word) = nat d"
    using d dlt by (intro unat_word_of_int_small8) simp_all
  then show "unat (p_d P) = nat d"
    by (simp add: P_def new_parameter_set_def)
  show "unat (p_a P) = unat a"
    using ab by (simp add: P_def new_parameter_set_def ucast_small_unat)
  show "unat (p_k P) = unat k"
    using kb by (simp add: P_def new_parameter_set_def ucast_small_unat)
qed

lemma of_nat_unat_same: "of_nat (unat (w :: 32 word)) = w"
  by simp

lemma admitted_formulas:
  assumes sq: "search_queues chk heap sec_level num_sig sign_op d_restrict h_restrict a_restrict
      = Some (Inr (n, qs))"
    and sec: "0 < sec_level" "sec_level \<le> 512" and so: "uint sign_op \<le> 2 ^ 24 - 4"
  shows "\<forall>c<3. \<forall>p \<in> set (queue_of c qs).
    (\<exists>lw cd wd hm d a k. 2 \<le> lw \<and> lw \<le> 8 \<and> unat (p_w p) = 2 ^ lw \<and>
       checksum_loop (2 ^ lw) ((2 ^ lw - 1) * of_nat ((nat sec_level + lw - 1) div lw)) 1 (2 ^ lw)
         = Some (of_nat cd) \<and>
       wd = (nat sec_level + lw - 1) div lw + cd \<and>
       2 \<le> hm \<and> hm < 32 \<and> 1 \<le> d \<and> d < 30 \<and> 1 \<le> a \<and> a < 30 \<and> 1 \<le> k \<and> k < 100 \<and>
       p_h p = of_nat (hm * d) \<and> unat (p_d p) = d \<and> unat (p_a p) = a \<and> unat (p_k p) = k \<and>
       hypertree_cost (int d) (of_nat (1 + wd * 2 ^ lw)) (of_nat (2 ^ hm))
         = int (formula_cost_hypertree (2 ^ lw) wd hm d) \<and>
       unat (sig_size p) = formula_sig_size (nat ((sec_level + 7) div 8)) wd hm d a k \<and>
       unat (sig_time p) = formula_sig_time (formula_cost_hypertree (2 ^ lw) wd hm d)
         (formula_cost_fors_tree a) k \<and>
       formula_cost_hypertree (2 ^ lw) wd hm d + k * formula_cost_fors_tree a \<le> unat sign_op)"
proof (rule search_queues_elems [OF sq, where R = "\<lambda>c p.
    (\<exists>lw cd wd hm d a k. 2 \<le> lw \<and> lw \<le> 8 \<and> unat (p_w p) = 2 ^ lw \<and>
       checksum_loop (2 ^ lw) ((2 ^ lw - 1) * of_nat ((nat sec_level + lw - 1) div lw)) 1 (2 ^ lw)
         = Some (of_nat cd) \<and>
       wd = (nat sec_level + lw - 1) div lw + cd \<and>
       2 \<le> hm \<and> hm < 32 \<and> 1 \<le> d \<and> d < 30 \<and> 1 \<le> a \<and> a < 30 \<and> 1 \<le> k \<and> k < 100 \<and>
       p_h p = of_nat (hm * d) \<and> unat (p_d p) = d \<and> unat (p_a p) = a \<and> unat (p_k p) = k \<and>
       hypertree_cost (int d) (of_nat (1 + wd * 2 ^ lw)) (of_nat (2 ^ hm))
         = int (formula_cost_hypertree (2 ^ lw) wd hm d) \<and>
       unat (sig_size p) = formula_sig_size (nat ((sec_level + 7) div 8)) wd hm d a k \<and>
       unat (sig_time p) = formula_sig_time (formula_cost_hypertree (2 ^ lw) wd hm d)
         (formula_cost_fors_tree a) k \<and>
       formula_cost_hypertree (2 ^ lw) wd hm d + k * formula_cost_fors_tree a \<le> unat sign_op)"])
  fix lw :: nat and cd :: "32 word" and hm' d' :: int and a' k' :: "32 word"
  assume lw: "2 \<le> lw" "lw \<le> 8"
    and cl: "checksum_loop (2 ^ lw)
        ((2 ^ lw - 1) * ((word_of_int sec_level + of_nat lw - 1) div of_nat lw)) 1 (2 ^ lw) = Some cd"
    and hm: "2 \<le> hm'" "hm' < 32" and hs: "hm' \<le> sec_level + 20" and d: "1 \<le> d'"
    and pt: "passes_tests sec_level num_sig sign_op
        (1 + ((word_of_int sec_level + of_nat lw - 1) div of_nat lw + cd) * 2 ^ lw)
        (word_of_int (push_bit (nat hm') 1)) (hm' * d') d' a' k'"
  let ?hd = "(word_of_int sec_level + of_nat lw - 1) div of_nat lw :: 32 word"
  let ?HD = "(nat sec_level + lw - 1) div lw"
  let ?WD = "?HD + unat cd"
  let ?P = "new_parameter_set (word_of_int ((sec_level + 7) sdiv 8)) (2 ^ lw) (?hd + cd) hm'
      (hm' * d') d'
      (hypertree_cost d' (1 + (?hd + cd) * 2 ^ lw) (word_of_int (push_bit (nat hm') 1)))
      a' (word_of_int (3 * push_bit (unat a') 1 - 1)) k'"
  note A = admitted_shape [OF sec so lw cl hm d pt]
  have hd: "?hd = of_nat ?HD"
    using hash_digits_unat [OF sec lw] by (metis of_nat_unat_same)
  have wdw: "?hd + cd = of_nat ?WD" using A(7) by (metis of_nat_unat_same)
  have c1: "checksum_loop (2 ^ lw) ((2 ^ lw - 1) * of_nat ?HD) 1 (2 ^ lw)
      = Some (of_nat (unat cd))"
    using cl by (simp only: hd of_nat_unat_same)
  have co: "(1 + (?hd + cd) * 2 ^ lw :: 32 word) = of_nat (1 + ?WD * 2 ^ lw)"
    by (simp only: wdw) simp
  have nt: "(word_of_int (push_bit (nat hm') 1) :: 32 word) = of_nat (2 ^ nat hm')" by simp
  have dn: "int (nat d') = d'" using d by simp
  have c2: "hypertree_cost (int (nat d')) (of_nat (1 + ?WD * 2 ^ lw)) (of_nat (2 ^ nat hm'))
      = int (formula_cost_hypertree (2 ^ lw) ?WD (nat hm') (nat d'))"
    using A(8) by (simp only: co nt dn)
  have r: "2 \<le> nat hm'" "nat hm' < 32" "1 \<le> nat d'" "nat d' < 30"
    using hm d A(2) by simp_all
  show "\<exists>lw' cd' wd hm d a k. 2 \<le> lw' \<and> lw' \<le> 8 \<and> unat (p_w ?P) = 2 ^ lw' \<and>
       checksum_loop (2 ^ lw') ((2 ^ lw' - 1) * of_nat ((nat sec_level + lw' - 1) div lw')) 1 (2 ^ lw')
         = Some (of_nat cd') \<and>
       wd = (nat sec_level + lw' - 1) div lw' + cd' \<and>
       2 \<le> hm \<and> hm < 32 \<and> 1 \<le> d \<and> d < 30 \<and> 1 \<le> a \<and> a < 30 \<and> 1 \<le> k \<and> k < 100 \<and>
       p_h ?P = of_nat (hm * d) \<and> unat (p_d ?P) = d \<and> unat (p_a ?P) = a \<and> unat (p_k ?P) = k \<and>
       hypertree_cost (int d) (of_nat (1 + wd * 2 ^ lw')) (of_nat (2 ^ hm))
         = int (formula_cost_hypertree (2 ^ lw') wd hm d) \<and>
       unat (sig_size ?P) = formula_sig_size (nat ((sec_level + 7) div 8)) wd hm d a k \<and>
       unat (sig_time ?P) = formula_sig_time (formula_cost_hypertree (2 ^ lw') wd hm d)
         (formula_cost_fors_tree a) k \<and>
       formula_cost_hypertree (2 ^ lw') wd hm d + k * formula_cost_fors_tree a \<le> unat sign_op"
    apply (rule exI [of _ lw], rule exI [of _ "unat cd"], rule exI [of _ ?WD],
        rule exI [of _ "nat hm'"], rule exI [of _ "nat d'"], rule exI [of _ "unat a'"],
        rule exI [of _ "unat k'"])
    apply (intro conjI)
    apply (rule lw(1), rule lw(2), rule A(12), rule c1, rule refl, rule r(1), rule r(2), rule r(3),
        rule r(4), rule A(3), rule A(4), rule A(5), rule A(6), rule A(13), rule A(14), rule A(15),
        rule A(16), rule c2, rule A(9), rule A(10), rule A(11))
    done
qed

lemma admitted_machine:
  assumes sq: "search_queues chk heap sec_level num_sig sign_op d_restrict h_restrict a_restrict
      = Some (Inr (n, qs))"
  shows "\<forall>c<3. \<forall>p \<in> set (queue_of c qs).
    (\<exists>lw cd wd hm d a k. 2 \<le> lw \<and> lw \<le> 8 \<and>
       checksum_loop (2 ^ lw)
         ((2 ^ lw - 1) * ((word_of_int sec_level + of_nat lw - 1) div of_nat lw)) 1 (2 ^ lw)
         = Some cd \<and>
       wd = (word_of_int sec_level + of_nat lw - 1) div of_nat lw + cd \<and>
       2 \<le> hm \<and> hm < 32 \<and> 1 \<le> d \<and> d < 30 \<and> 1 \<le> unat a \<and> a < 30 \<and> 1 \<le> unat k \<and> k < MAX_K \<and>
       sig_size p = word_of_int ((sec_level + 7) sdiv 8) *
         (1 + k * (a + 1) + word_of_int d * (wd + word_of_int hm)) \<and>
       sig_time p = word_of_int (fl (fl (3 + hypertree_cost d (1 + wd * 2 ^ lw)
           (word_of_int (push_bit (nat hm) 1))) +
         fl (uint (k * word_of_int (3 * push_bit (unat a) 1 - 1))))))"
proof (rule search_queues_elems [OF sq, where R = "\<lambda>c p.
    (\<exists>lw cd wd hm d a k. 2 \<le> lw \<and> lw \<le> 8 \<and>
       checksum_loop (2 ^ lw)
         ((2 ^ lw - 1) * ((word_of_int sec_level + of_nat lw - 1) div of_nat lw)) 1 (2 ^ lw)
         = Some cd \<and>
       wd = (word_of_int sec_level + of_nat lw - 1) div of_nat lw + cd \<and>
       2 \<le> hm \<and> hm < 32 \<and> 1 \<le> d \<and> d < 30 \<and> 1 \<le> unat a \<and> a < 30 \<and> 1 \<le> unat k \<and> k < MAX_K \<and>
       sig_size p = word_of_int ((sec_level + 7) sdiv 8) *
         (1 + k * (a + 1) + word_of_int d * (wd + word_of_int hm)) \<and>
       sig_time p = word_of_int (fl (fl (3 + hypertree_cost d (1 + wd * 2 ^ lw)
           (word_of_int (push_bit (nat hm) 1))) +
         fl (uint (k * word_of_int (3 * push_bit (unat a) 1 - 1))))))"])
  fix lw :: nat and cd :: "32 word" and hm' d' :: int and a' k' :: "32 word"
  assume lw: "2 \<le> lw" "lw \<le> 8"
    and cl: "checksum_loop (2 ^ lw)
        ((2 ^ lw - 1) * ((word_of_int sec_level + of_nat lw - 1) div of_nat lw)) 1 (2 ^ lw) = Some cd"
    and hm: "2 \<le> hm'" "hm' < 32" and d: "1 \<le> d'"
    and pt: "passes_tests sec_level num_sig sign_op
        (1 + ((word_of_int sec_level + of_nat lw - 1) div of_nat lw + cd) * 2 ^ lw)
        (word_of_int (push_bit (nat hm') 1)) (hm' * d') d' a' k'"
  let ?wd = "(word_of_int sec_level + of_nat lw - 1) div of_nat lw + cd :: 32 word"
  let ?P = "new_parameter_set (word_of_int ((sec_level + 7) sdiv 8)) (2 ^ lw) ?wd hm'
      (hm' * d') d'
      (hypertree_cost d' (1 + ?wd * 2 ^ lw) (word_of_int (push_bit (nat hm') 1)))
      a' (word_of_int (3 * push_bit (unat a') 1 - 1)) k'"
  from pt have b: "d' < 30" "1 \<le> unat a'" "a' < 30" "1 \<le> unat k'" "k' < MAX_K"
    unfolding passes_tests_def by simp_all
  have s1: "sig_size ?P = word_of_int ((sec_level + 7) sdiv 8) *
         (1 + k' * (a' + 1) + word_of_int d' * (?wd + word_of_int hm'))"
    by (simp add: new_parameter_set_def)
  have s2: "sig_time ?P = word_of_int (fl (fl (3 + hypertree_cost d' (1 + ?wd * 2 ^ lw)
           (word_of_int (push_bit (nat hm') 1))) +
         fl (uint (k' * word_of_int (3 * push_bit (unat a') 1 - 1)))))"
    by (simp add: new_parameter_set_def)
  show "\<exists>lw' cd' wd hm d a k. 2 \<le> lw' \<and> lw' \<le> 8 \<and>
       checksum_loop (2 ^ lw')
         ((2 ^ lw' - 1) * ((word_of_int sec_level + of_nat lw' - 1) div of_nat lw')) 1 (2 ^ lw')
         = Some cd' \<and>
       wd = (word_of_int sec_level + of_nat lw' - 1) div of_nat lw' + cd' \<and>
       2 \<le> hm \<and> hm < 32 \<and> 1 \<le> d \<and> d < 30 \<and> 1 \<le> unat a \<and> a < 30 \<and> 1 \<le> unat k \<and> k < MAX_K \<and>
       sig_size ?P = word_of_int ((sec_level + 7) sdiv 8) *
         (1 + k * (a + 1) + word_of_int d * (wd + word_of_int hm)) \<and>
       sig_time ?P = word_of_int (fl (fl (3 + hypertree_cost d (1 + wd * 2 ^ lw')
           (word_of_int (push_bit (nat hm) 1))) +
         fl (uint (k * word_of_int (3 * push_bit (unat a) 1 - 1)))))"
    apply (rule exI [of _ lw], rule exI [of _ cd], rule exI [of _ ?wd],
        rule exI [of _ hm'], rule exI [of _ d'], rule exI [of _ a'], rule exI [of _ k'])
    apply (intro conjI)
    apply (rule lw(1), rule lw(2), rule cl, rule refl, rule hm(1), rule hm(2), rule d, rule b(1),
        rule b(2), rule b(3), rule b(4), rule b(5), rule s1, rule s2)
    done
qed

text \<open>
  Claim C5. Every parameter set that the enumeration has put on a queue was built from
  a width \<open>2 ^ lw\<close>, a checksum digit count \<open>cd\<close> that the checksum loop returned, a
  Merkle height \<open>hm\<close>, a depth \<open>d\<close>, a FORS height \<open>a\<close> and a FORS tree count \<open>k\<close>
  within the bounds of the iteration; its recorded signature size is
  \<open>hash_size * (1 + k * (a + 1) + d * (wd + hm))\<close> in 32-bit unsigned arithmetic, and its
  recorded signing cost is \<open>3 + cost_hypertree + k * cost_fors_tree\<close> in \<^verbatim>\<open>float\<close>
  arithmetic, converted to \<^verbatim>\<open>unsigned\<close>, with the hypertree cost that the enumeration
  computed.

  In exact arithmetic: for a security level from 1 to 512 and a budget below
  \<open>2 ^ 24 - 3\<close> (where every cost that passes the tests is a whole number that a
  \<^verbatim>\<open>float\<close> holds exactly) the enumeration comes back, and for every parameter set on a
  queue the hypertree cost that the enumeration computed is
  \<open>d * ((cost_ots + 1) * 2 ^ hm - 1)\<close> with \<open>cost_ots = 1 + wd * w\<close>; the recorded
  signature size is the number \<open>hash_size * (1 + k * (a + 1) + d * (wd + hm))\<close>; the
  recorded signing cost is the number \<open>3 + cost_hypertree + k * cost_fors_tree\<close> with
  \<open>cost_fors_tree = 3 * 2 ^ a - 1\<close>; and \<open>cost_hypertree + k * cost_fors_tree\<close> is within
  the budget. The fields \<^verbatim>\<open>d\<close>, \<^verbatim>\<open>a\<close>, \<^verbatim>\<open>k\<close> and \<^verbatim>\<open>w\<close> hold the values themselves, the
  8-bit field \<^verbatim>\<open>h\<close> holds \<open>hm * d\<close> modulo 256.
\<close>

theorem recorded_size_and_cost:
  "(\<forall>n qs c p. search_queues chk heap sec_level num_sig sign_op d_restrict h_restrict a_restrict
        = Some (Inr (n, qs)) \<and> c < 3 \<and> p \<in> set (queue_of c qs) \<longrightarrow>
     (\<exists>lw cd wd hm d a k. 2 \<le> lw \<and> lw \<le> 8 \<and>
       checksum_loop (2 ^ lw)
         ((2 ^ lw - 1) * ((word_of_int sec_level + of_nat lw - 1) div of_nat lw)) 1 (2 ^ lw)
         = Some cd \<and>
       wd = (word_of_int sec_level + of_nat lw - 1) div of_nat lw + cd \<and>
       2 \<le> hm \<and> hm < 32 \<and> 1 \<le> d \<and> d < 30 \<and> 1 \<le> unat a \<and> a < 30 \<and> 1 \<le> unat k \<and> k < MAX_K \<and>
       sig_size p = word_of_int ((sec_level + 7) sdiv 8) *
         (1 + k * (a + 1) + word_of_int d * (wd + word_of_int hm)) \<and>
       sig_time p = word_of_int (fl (fl (3 + hypertree_cost d (1 + wd * 2 ^ lw)
           (word_of_int (push_bit (nat hm) 1))) +
         fl (uint (k * word_of_int (3 * push_bit (unat a) 1 - 1))))))) \<and>
   (0 < sec_level \<and> sec_level \<le> 512 \<and> uint sign_op \<le> 2 ^ 24 - 4 \<longrightarrow>
    (\<exists>r. search_queues chk heap sec_level num_sig sign_op d_restrict h_restrict a_restrict
       = Some r) \<and>
    (\<forall>n qs c p. search_queues chk heap sec_level num_sig sign_op d_restrict h_restrict a_restrict
        = Some (Inr (n, qs)) \<and> c < 3 \<and> p \<in> set (queue_of c qs) \<longrightarrow>
     (\<exists>lw cd wd hm d a k. 2 \<le> lw \<and> lw \<le> 8 \<and> unat (p_w p) = 2 ^ lw \<and>
       checksum_loop (2 ^ lw) ((2 ^ lw - 1) * of_nat ((nat sec_level + lw - 1) div lw)) 1 (2 ^ lw)
         = Some (of_nat cd) \<and>
       wd = (nat sec_level + lw - 1) div lw + cd \<and>
       2 \<le> hm \<and> hm < 32 \<and> 1 \<le> d \<and> d < 30 \<and> 1 \<le> a \<and> a < 30 \<and> 1 \<le> k \<and> k < 100 \<and>
       p_h p = of_nat (hm * d) \<and> unat (p_d p) = d \<and> unat (p_a p) = a \<and> unat (p_k p) = k \<and>
       hypertree_cost (int d) (of_nat (1 + wd * 2 ^ lw)) (of_nat (2 ^ hm))
         = int (formula_cost_hypertree (2 ^ lw) wd hm d) \<and>
       unat (sig_size p) = formula_sig_size (nat ((sec_level + 7) div 8)) wd hm d a k \<and>
       unat (sig_time p) = formula_sig_time (formula_cost_hypertree (2 ^ lw) wd hm d)
         (formula_cost_fors_tree a) k \<and>
       formula_cost_hypertree (2 ^ lw) wd hm d + k * formula_cost_fors_tree a \<le> unat sign_op)))"
proof (intro impI conjI allI)
  fix n qs c p
  assume b: "search_queues chk heap sec_level num_sig sign_op d_restrict h_restrict a_restrict
        = Some (Inr (n, qs)) \<and> c < 3 \<and> p \<in> set (queue_of c qs)"
  from b have sq: "search_queues chk heap sec_level num_sig sign_op d_restrict h_restrict a_restrict
        = Some (Inr (n, qs))" and c: "c < 3" and p: "p \<in> set (queue_of c qs)" by simp_all
  from admitted_machine [OF sq] c p
  show "(\<exists>lw cd wd hm d a k. 2 \<le> lw \<and> lw \<le> 8 \<and>
       checksum_loop (2 ^ lw)
         ((2 ^ lw - 1) * ((word_of_int sec_level + of_nat lw - 1) div of_nat lw)) 1 (2 ^ lw)
         = Some cd \<and>
       wd = (word_of_int sec_level + of_nat lw - 1) div of_nat lw + cd \<and>
       2 \<le> hm \<and> hm < 32 \<and> 1 \<le> d \<and> d < 30 \<and> 1 \<le> unat a \<and> a < 30 \<and> 1 \<le> unat k \<and> k < MAX_K \<and>
       sig_size p = word_of_int ((sec_level + 7) sdiv 8) *
         (1 + k * (a + 1) + word_of_int d * (wd + word_of_int hm)) \<and>
       sig_time p = word_of_int (fl (fl (3 + hypertree_cost d (1 + wd * 2 ^ lw)
           (word_of_int (push_bit (nat hm) 1))) +
         fl (uint (k * word_of_int (3 * push_bit (unat a) 1 - 1))))))" by blast
next
  assume a: "0 < sec_level \<and> sec_level \<le> 512 \<and> uint sign_op \<le> 2 ^ 24 - 4"
  then have "0 \<le> sec_level" "sec_level \<le> 65536" by simp_all
  then show "\<exists>r. search_queues chk heap sec_level num_sig sign_op d_restrict h_restrict a_restrict
      = Some r" by (rule search_queues_returns)
  fix n qs c p
  assume b: "search_queues chk heap sec_level num_sig sign_op d_restrict h_restrict a_restrict
        = Some (Inr (n, qs)) \<and> c < 3 \<and> p \<in> set (queue_of c qs)"
  from a have sec: "0 < sec_level" "sec_level \<le> 512" and so: "uint sign_op \<le> 2 ^ 24 - 4"
    by simp_all
  from b have sq: "search_queues chk heap sec_level num_sig sign_op d_restrict h_restrict a_restrict
        = Some (Inr (n, qs))" and c: "c < 3" and p: "p \<in> set (queue_of c qs)" by simp_all
  from admitted_formulas [OF sq sec so] c p
  show "(\<exists>lw cd wd hm d a k. 2 \<le> lw \<and> lw \<le> 8 \<and> unat (p_w p) = 2 ^ lw \<and>
       checksum_loop (2 ^ lw) ((2 ^ lw - 1) * of_nat ((nat sec_level + lw - 1) div lw)) 1 (2 ^ lw)
         = Some (of_nat cd) \<and>
       wd = (nat sec_level + lw - 1) div lw + cd \<and>
       2 \<le> hm \<and> hm < 32 \<and> 1 \<le> d \<and> d < 30 \<and> 1 \<le> a \<and> a < 30 \<and> 1 \<le> k \<and> k < 100 \<and>
       p_h p = of_nat (hm * d) \<and> unat (p_d p) = d \<and> unat (p_a p) = a \<and> unat (p_k p) = k \<and>
       hypertree_cost (int d) (of_nat (1 + wd * 2 ^ lw)) (of_nat (2 ^ hm))
         = int (formula_cost_hypertree (2 ^ lw) wd hm d) \<and>
       unat (sig_size p) = formula_sig_size (nat ((sec_level + 7) div 8)) wd hm d a k \<and>
       unat (sig_time p) = formula_sig_time (formula_cost_hypertree (2 ^ lw) wd hm d)
         (formula_cost_fors_tree a) k \<and>
       formula_cost_hypertree (2 ^ lw) wd hm d + k * formula_cost_fors_tree a \<le> unat sign_op)" by blast
qed

text \<open>
  The enumeration for security level 16 and budget 2030, restricted to \<open>d = 11\<close>, Merkle
  height 2 and FORS height 1: three parameter sets with \<open>w = 4\<close>, 11 digits and
  \<open>k = 1, 2, 3\<close>; for the first one the formulas give the size
  \<open>2 * (1 + 1 * 2 + 11 * (11 + 2)) = 292\<close> and the cost \<open>3 + 2013 + 1 * 5 = 2021\<close>.
\<close>

theorem recorded_size_and_cost_witness:
  "(0::int) < 16 \<and> (16::int) \<le> 512 \<and> uint (2030 :: 32 word) \<le> 2 ^ 24 - 4 \<and>
   search_queues low_overuse_check 1000 16 5 2030 11 2 1 = Some (Inr (3, [],
     [\<lparr>p_h = 22, p_d = 11, p_a = 1, p_k = 3, p_w = 4, sig_size = 300,
           sig_time = 2031, ver_time = 283\<rparr>,
      \<lparr>p_h = 22, p_d = 11, p_a = 1, p_k = 2, p_w = 4, sig_size = 296,
           sig_time = 2026, ver_time = 281\<rparr>,
      \<lparr>p_h = 22, p_d = 11, p_a = 1, p_k = 1, p_w = 4, sig_size = 292,
           sig_time = 2021, ver_time = 279\<rparr>], [])) \<and>
   (\<exists>lw cd wd hm d a k. 2 \<le> lw \<and> lw \<le> 8 \<and>
       checksum_loop (2 ^ lw)
         ((2 ^ lw - 1) * ((word_of_int 16 + of_nat lw - 1) div of_nat lw)) 1 (2 ^ lw)
         = Some cd \<and>
       wd = (word_of_int 16 + of_nat lw - 1) div of_nat lw + cd \<and>
       2 \<le> hm \<and> hm < 32 \<and> 1 \<le> d \<and> d < 30 \<and> 1 \<le> unat a \<and> a < 30 \<and> 1 \<le> unat k \<and> k < MAX_K \<and>
       sig_size \<lparr>p_h = 22, p_d = 11, p_a = 1, p_k = 1, p_w = 4, sig_size = 292, sig_time = 2021, ver_time = 279\<rparr> = word_of_int ((16 + 7) sdiv 8) *
         (1 + k * (a + 1) + word_of_int d * (wd + word_of_int hm)) \<and>
       sig_time \<lparr>p_h = 22, p_d = 11, p_a = 1, p_k = 1, p_w = 4, sig_size = 292, sig_time = 2021, ver_time = 279\<rparr> = word_of_int (fl (fl (3 + hypertree_cost d (1 + wd * 2 ^ lw)
           (word_of_int (push_bit (nat hm) 1))) +
         fl (uint (k * word_of_int (3 * push_bit (unat a) 1 - 1)))))) \<and>
   (\<exists>lw cd wd hm d a k. 2 \<le> lw \<and> lw \<le> 8 \<and> unat (p_w \<lparr>p_h = 22, p_d = 11, p_a = 1, p_k = 1, p_w = 4, sig_size = 292, sig_time = 2021, ver_time = 279\<rparr>) = 2 ^ lw \<and>
       checksum_loop (2 ^ lw) ((2 ^ lw - 1) * of_nat ((nat 16 + lw - 1) div lw)) 1 (2 ^ lw)
         = Some (of_nat cd) \<and>
       wd = (nat 16 + lw - 1) div lw + cd \<and>
       2 \<le> hm \<and> hm < 32 \<and> 1 \<le> d \<and> d < 30 \<and> 1 \<le> a \<and> a < 30 \<and> 1 \<le> k \<and> k < 100 \<and>
       p_h \<lparr>p_h = 22, p_d = 11, p_a = 1, p_k = 1, p_w = 4, sig_size = 292, sig_time = 2021, ver_time = 279\<rparr> = of_nat (hm * d) \<and> unat (p_d \<lparr>p_h = 22, p_d = 11, p_a = 1, p_k = 1, p_w = 4, sig_size = 292, sig_time = 2021, ver_time = 279\<rparr>) = d \<and> unat (p_a \<lparr>p_h = 22, p_d = 11, p_a = 1, p_k = 1, p_w = 4, sig_size = 292, sig_time = 2021, ver_time = 279\<rparr>) = a \<and> unat (p_k \<lparr>p_h = 22, p_d = 11, p_a = 1, p_k = 1, p_w = 4, sig_size = 292, sig_time = 2021, ver_time = 279\<rparr>) = k \<and>
       hypertree_cost (int d) (of_nat (1 + wd * 2 ^ lw)) (of_nat (2 ^ hm))
         = int (formula_cost_hypertree (2 ^ lw) wd hm d) \<and>
       unat (sig_size \<lparr>p_h = 22, p_d = 11, p_a = 1, p_k = 1, p_w = 4, sig_size = 292, sig_time = 2021, ver_time = 279\<rparr>) = formula_sig_size (nat ((16 + 7) div 8)) wd hm d a k \<and>
       unat (sig_time \<lparr>p_h = 22, p_d = 11, p_a = 1, p_k = 1, p_w = 4, sig_size = 292, sig_time = 2021, ver_time = 279\<rparr>) = formula_sig_time (formula_cost_hypertree (2 ^ lw) wd hm d)
         (formula_cost_fors_tree a) k \<and>
       formula_cost_hypertree (2 ^ lw) wd hm d + k * formula_cost_fors_tree a \<le> unat (2030 :: 32 word)) \<and>
   formula_sig_size 2 11 2 11 1 1 = 292 \<and>
   formula_sig_time (formula_cost_hypertree 4 11 2 11) (formula_cost_fors_tree 1) 1 = 2021"
proof -
  let ?p1 = "\<lparr>p_h = 22, p_d = 11, p_a = 1, p_k = 1, p_w = 4, sig_size = 292,
           sig_time = 2021, ver_time = 279\<rparr>"
  let ?p2 = "\<lparr>p_h = 22, p_d = 11, p_a = 1, p_k = 2, p_w = 4, sig_size = 296,
           sig_time = 2026, ver_time = 281\<rparr>"
  let ?p3 = "\<lparr>p_h = 22, p_d = 11, p_a = 1, p_k = 3, p_w = 4, sig_size = 300,
           sig_time = 2031, ver_time = 283\<rparr>"
  note T = recorded_size_and_cost [where chk = low_overuse_check and heap = 1000
      and sec_level = 16 and num_sig = 5 and sign_op = 2030 and d_restrict = 11
      and h_restrict = 2 and a_restrict = 1]
  have hyp: "(0::int) < 16 \<and> (16::int) \<le> 512 \<and> uint (2030 :: 32 word) \<le> 2 ^ 24 - 4" by simp
  note T' = T [THEN conjunct2, THEN mp, OF hyp]
  have q: "search_queues low_overuse_check 1000 16 5 2030 11 2 1
      = Some (Inr (3, [], [?p3, ?p2, ?p1], []))"
    by (simp add: example_queues)
  have m: "search_queues low_overuse_check 1000 16 5 2030 11 2 1
      = Some (Inr (3, [], [?p3, ?p2, ?p1], [])) \<and> (1::nat) < 3 \<and>
      ?p1 \<in> set (queue_of 1 ([], [?p3, ?p2, ?p1], []))"
    by (simp add: q queue_of_def)
  from T [THEN conjunct1, THEN spec, THEN spec, THEN spec, THEN spec, THEN mp, OF m]
  have mach: "(\<exists>lw cd wd hm d a k. 2 \<le> lw \<and> lw \<le> 8 \<and>
       checksum_loop (2 ^ lw)
         ((2 ^ lw - 1) * ((word_of_int 16 + of_nat lw - 1) div of_nat lw)) 1 (2 ^ lw)
         = Some cd \<and>
       wd = (word_of_int 16 + of_nat lw - 1) div of_nat lw + cd \<and>
       2 \<le> hm \<and> hm < 32 \<and> 1 \<le> d \<and> d < 30 \<and> 1 \<le> unat a \<and> a < 30 \<and> 1 \<le> unat k \<and> k < MAX_K \<and>
       sig_size ?p1 = word_of_int ((16 + 7) sdiv 8) *
         (1 + k * (a + 1) + word_of_int d * (wd + word_of_int hm)) \<and>
       sig_time ?p1 = word_of_int (fl (fl (3 + hypertree_cost d (1 + wd * 2 ^ lw)
           (word_of_int (push_bit (nat hm) 1))) +
         fl (uint (k * word_of_int (3 * push_bit (unat a) 1 - 1))))))" .
  from T' [THEN conjunct2, THEN spec, THEN spec, THEN spec, THEN spec, THEN mp, OF m]
  have ex: "(\<exists>lw cd wd hm d a k. 2 \<le> lw \<and> lw \<le> 8 \<and> unat (p_w ?p1) = 2 ^ lw \<and>
       checksum_loop (2 ^ lw) ((2 ^ lw - 1) * of_nat ((nat 16 + lw - 1) div lw)) 1 (2 ^ lw)
         = Some (of_nat cd) \<and>
       wd = (nat 16 + lw - 1) div lw + cd \<and>
       2 \<le> hm \<and> hm < 32 \<and> 1 \<le> d \<and> d < 30 \<and> 1 \<le> a \<and> a < 30 \<and> 1 \<le> k \<and> k < 100 \<and>
       p_h ?p1 = of_nat (hm * d) \<and> unat (p_d ?p1) = d \<and> unat (p_a ?p1) = a \<and> unat (p_k ?p1) = k \<and>
       hypertree_cost (int d) (of_nat (1 + wd * 2 ^ lw)) (of_nat (2 ^ hm))
         = int (formula_cost_hypertree (2 ^ lw) wd hm d) \<and>
       unat (sig_size ?p1) = formula_sig_size (nat ((16 + 7) div 8)) wd hm d a k \<and>
       unat (sig_time ?p1) = formula_sig_time (formula_cost_hypertree (2 ^ lw) wd hm d)
         (formula_cost_fors_tree a) k \<and>
       formula_cost_hypertree (2 ^ lw) wd hm d + k * formula_cost_fors_tree a \<le> unat (2030 :: 32 word))" .
  have f: "formula_sig_size 2 11 2 11 1 1 = 292"
    "formula_sig_time (formula_cost_hypertree 4 11 2 11) (formula_cost_fors_tree 1) 1 = 2021"
    by (simp_all add: formula_sig_size_def formula_sig_time_def formula_cost_hypertree_def
        formula_cost_fors_tree_def)
  from hyp q mach ex f show ?thesis by blast
qed

section \<open>A listed parameter set above the budget\<close>

lemma over_budget_queues:
  assumes "chk 5 22 1 1 16" "0 < heap"
  shows "search_queues chk heap 16 5 2018 11 2 1 =
      Some (Inr (1, [],
       [\<lparr>p_h = 22, p_d = 11, p_a = 1, p_k = 1, p_w = 4, sig_size = 292,
           sig_time = 2021, ver_time = 279\<rparr>], []))"
  using assms by (simp add: search_eval)

lemma my_sort_single:
  "my_sort [\<lparr>p_h = 22, p_d = 11, p_a = 1, p_k = 1, p_w = 4, sig_size = 292,
           sig_time = 2021, ver_time = 279\<rparr>] =
     [\<lparr>p_h = 22, p_d = 11, p_a = 1, p_k = 1, p_w = 4, sig_size = 292,
           sig_time = 2021, ver_time = 279\<rparr>]"
  by (simp add: sort_eval)

text \<open>
  Claim C4 states that every listed parameter set has a signing cost of at most
  \<^verbatim>\<open>sign_op\<close>. The loop over \<open>k\<close> tests \<^verbatim>\<open>cost_hypertree + k*cost_fors_tree > sign_op\<close>,
  while the recorded cost is \<^verbatim>\<open>3 + cost_hypertree + k*cost_fors_tree\<close>, so a parameter set
  whose cost is up to 3 above the budget is admitted. For \<^verbatim>\<open>do_search(16, 5, 8, 2018, 0,
  NULL, 11, 2, 1)\<close>, whenever \<^verbatim>\<open>check_sec_level(5, 22, 1, 1, 16)\<close> holds and the overuse
  score of the admitted set is positive, the list has one entry, and its signing cost
  2021 is above the budget 2018.
\<close>

theorem listed_set_over_budget:
  assumes "chk 5 22 1 1 16" and "compute_sigs_at_sec_level csl 8 22 1 1 = Some v" and "0 < v"
    and "0 < heap"
  shows "do_search chk csl heap 16 5 8 2018 0 11 2 1 = Some (Inr
     [\<lparr>p_h = 22, p_d = 11, p_a = 1, p_k = 1, p_w = 4, sig_size = 292,
           sig_time = 2021, ver_time = 279\<rparr>]) \<and>
   \<not> sig_time \<lparr>p_h = 22, p_d = 11, p_a = 1, p_k = 1, p_w = 4, sig_size = 292,
           sig_time = 2021, ver_time = 279\<rparr> \<le> 2018"
  using assms(2,3)
  by (simp add: do_search_def over_budget_queues [where chk = chk, OF assms(1,4)] my_sort_single my_sort_Nil
      select_loop.simps pick_winner_def pull_winner_def update_levels.simps Let_def)

text \<open>
  The same run with the estimate \<open>H + K * T - m\<close>: the check holds, the score is 1500,
  and the entry of cost 2021 is listed for the budget 2018.
\<close>

theorem listed_set_over_budget_witness:
  "low_overuse_check 5 22 1 1 16 \<and>
   compute_sigs_at_sec_level low_overuse_level 8 22 1 1 = Some 1500 \<and> (0::int) < 1500 \<and>
   (0::nat) < 1000 \<and>
   do_search low_overuse_check low_overuse_level 1000 16 5 8 2018 0 11 2 1 = Some (Inr
     [\<lparr>p_h = 22, p_d = 11, p_a = 1, p_k = 1, p_w = 4, sig_size = 292,
           sig_time = 2021, ver_time = 279\<rparr>]) \<and>
   \<not> (2021 :: 32 word) \<le> 2018"
proof -
  have h1: "low_overuse_check 5 22 1 1 16"
    by (simp add: low_overuse_check_def low_overuse_level_def)
  have h2: "compute_sigs_at_sec_level low_overuse_level 8 22 1 1 = Some 1500"
    by (rule example_scores(1))
  have h3: "(0::int) < 1500" and h4: "(0::nat) < 1000" by simp_all
  from listed_set_over_budget [where chk = low_overuse_check and csl = low_overuse_level,
      OF h1 h2 h3 h4]
  have "do_search low_overuse_check low_overuse_level 1000 16 5 8 2018 0 11 2 1 = Some (Inr
     [\<lparr>p_h = 22, p_d = 11, p_a = 1, p_k = 1, p_w = 4, sig_size = 292,
           sig_time = 2021, ver_time = 279\<rparr>])"
    and "\<not> (2021 :: 32 word) \<le> 2018" by simp_all
  with h1 h2 h3 h4 show ?thesis by blast
qed

end
